theory Spec2Isabelle
  imports Main
begin

section \<open>NumPy buffers\<close>

text \<open>
  A tensor's \<^verbatim>\<open>_data\<close> and \<^verbatim>\<open>_grad\<close> are NumPy arrays. An array is its shape and its
  elements in row-major order. The element type is a parameter: the arithmetic of
  \<^verbatim>\<open>float32\<close> is whatever \<open>+\<close>, \<open>-\<close>, \<open>*\<close> and \<open>1\<close> of the element type are, and no
  theorem below uses a law of arithmetic unless it fixes the element type.
\<close>

record 'a ndarray =
  nd_shape :: "nat list"
  nd_elems :: "'a list"

text \<open>\<^verbatim>\<open>ndarray.size\<close>: the product of the dimensions.\<close>

definition nd_size :: "'a ndarray \<Rightarrow> nat" where
  "nd_size d = prod_list (nd_shape d)"

text \<open>\<^verbatim>\<open>np.ones_like\<close>.\<close>

definition ones_like :: "'a::one ndarray \<Rightarrow> 'a ndarray" where
  "ones_like d = \<lparr>nd_shape = nd_shape d, nd_elems = replicate (nd_size d) 1\<rparr>"

text \<open>An operator between two arrays of the same shape works element by element.\<close>

definition nd_zip :: "('a \<Rightarrow> 'a \<Rightarrow> 'a) \<Rightarrow> 'a ndarray \<Rightarrow> 'a ndarray \<Rightarrow> 'a ndarray" where
  "nd_zip f a b = \<lparr>nd_shape = nd_shape a, nd_elems = map2 f (nd_elems a) (nd_elems b)\<rparr>"

text \<open>An operator between an array and a Python number works on every element.\<close>

definition nd_map :: "('a \<Rightarrow> 'a) \<Rightarrow> 'a ndarray \<Rightarrow> 'a ndarray" where
  "nd_map f a = \<lparr>nd_shape = nd_shape a, nd_elems = map f (nd_elems a)\<rparr>"

text \<open>Row-major positions: the multi-index of a flat position, and back.\<close>

fun unravel :: "nat list \<Rightarrow> nat \<Rightarrow> nat list" where
  "unravel [] k = []"
| "unravel (d # ds) k = (k div prod_list ds) mod d # unravel ds (k mod prod_list ds)"

fun ravel :: "nat list \<Rightarrow> nat list \<Rightarrow> nat" where
  "ravel (d # ds) (i # js) = i * prod_list ds + ravel ds js"
| "ravel ds js = 0"

text \<open>\<^verbatim>\<open>ndarray.T\<close>: the axes in reverse order.\<close>

definition nd_T :: "'a ndarray \<Rightarrow> 'a ndarray" where
  "nd_T d = \<lparr>nd_shape = rev (nd_shape d),
            nd_elems = map (\<lambda>k. nd_elems d ! ravel (nd_shape d) (rev (unravel (rev (nd_shape d)) k)))
                           [0 ..< length (nd_elems d)]\<rparr>"

text \<open>\<^verbatim>\<open>ndarray.reshape\<close> to a shape of as many elements keeps the row-major elements.\<close>

definition nd_reshape :: "'a ndarray \<Rightarrow> nat list \<Rightarrow> 'a ndarray" where
  "nd_reshape d s = \<lparr>nd_shape = s, nd_elems = nd_elems d\<rparr>"

section \<open>Errors\<close>

text \<open>
  The exceptions of the source, by class, with the fixed part of the message.
  \<open>InvalidReference\<close> is no Python exception: it is the model's answer when a method is
  handed an address that denotes no object, which no Python caller can do.
\<close>

datatype error =
    ValueError string
  | TypeError string
  | RuntimeError string
  | KeyError
  | InvalidReference

section \<open>Tensors and the object store\<close>

datatype TensorType = INPUT | PARAMETER | INTERMEDIATE

text \<open>
  The gradient functions of \<^verbatim>\<open>grad.py\<close> that \<^verbatim>\<open>tensor.py\<close> stores in \<^verbatim>\<open>_grad_fn\<close>; the
  field holds a reference to one of them and the code compares it by identity.
\<close>

datatype grad_fn =
    transpose_backward
  | add_backward
  | add_scalar_backward
  | sub_backward
  | sub_scalar_backward
  | mul_backward
  | mul_scalar_backward
  | matmul_backward
  | power_backward
  | negate_backward
  | reshape_backward

text \<open>The values stored in \<^verbatim>\<open>_extra\<close>: a number or a shape.\<close>

datatype 'a extra_value = Number 'a | Shape "nat list"

text \<open>
  The slots of a \<^verbatim>\<open>Tensor\<close>. A reference to a tensor is its address in the store, and
  the address of a tensor is its \<^verbatim>\<open>_id\<close>: \<^verbatim>\<open>__init__\<close> gives every object the next value
  of \<^verbatim>\<open>_id_counter\<close> and nothing assigns \<^verbatim>\<open>_id\<close> again. So \<^verbatim>\<open>_parents\<close> and \<^verbatim>\<open>_children\<close>
  are lists of addresses, and comparing two tensors by \<^verbatim>\<open>_id\<close> or by identity is
  comparing their addresses.
\<close>

record 'a tensor =
  data :: "'a ndarray"
  shape :: "nat list"
  grad_fn :: "grad_fn option"
  grad :: "'a ndarray option"
  children :: "nat list"
  parents :: "nat list"
  stale :: bool
  extra :: "(string \<times> 'a extra_value) list"
  version :: nat
  tensor_type :: TensorType
  requires_grad :: bool

text \<open>
  The state of the module: every tensor constructed so far, at its address, and the keys
  of \<^verbatim>\<open>_global_tensor_registry\<close> in insertion order (the order in which \<^verbatim>\<open>values()\<close> lists
  them). \<^verbatim>\<open>_id_counter\<close> is the number of tensors constructed so far, \<open>length (heap st)\<close>.
  The registry holds its tensors weakly; the model keeps every object alive, as a caller
  does who holds on to the tensors it made, so an entry leaves the registry only when
  \<^verbatim>\<open>clear_stale_tensors\<close> deletes it.
\<close>

record 'a state =
  heap :: "'a tensor list"
  registry :: "nat list"

definition id_counter :: "'a state \<Rightarrow> nat" where
  "id_counter st = length (heap st)"

definition lookup :: "'a state \<Rightarrow> nat \<Rightarrow> 'a tensor option" where
  "lookup st i = (if i < length (heap st) then Some (heap st ! i) else None)"

text \<open>Assignment to slots of the object at an address.\<close>

definition modify :: "nat \<Rightarrow> ('a tensor \<Rightarrow> 'a tensor) \<Rightarrow> 'a state \<Rightarrow> 'a state" where
  "modify i f st = (if i < length (heap st) then st\<lparr>heap := (heap st)[i := f (heap st ! i)]\<rparr> else st)"

text \<open>Reading one slot through a reference.\<close>

definition requires_grad_of :: "'a state \<Rightarrow> nat \<Rightarrow> bool" where
  "requires_grad_of st i = (case lookup st i of Some t \<Rightarrow> requires_grad t | None \<Rightarrow> False)"

definition parents_of :: "'a state \<Rightarrow> nat \<Rightarrow> nat list" where
  "parents_of st i = (case lookup st i of Some t \<Rightarrow> parents t | None \<Rightarrow> [])"

definition children_of :: "'a state \<Rightarrow> nat \<Rightarrow> nat list" where
  "children_of st i = (case lookup st i of Some t \<Rightarrow> children t | None \<Rightarrow> [])"

definition grad_of :: "'a state \<Rightarrow> nat \<Rightarrow> 'a ndarray option" where
  "grad_of st i = (case lookup st i of Some t \<Rightarrow> grad t | None \<Rightarrow> None)"

definition stale_of :: "'a state \<Rightarrow> nat \<Rightarrow> bool" where
  "stale_of st i = (case lookup st i of Some t \<Rightarrow> stale t | None \<Rightarrow> False)"

text \<open>The module before any tensor is made.\<close>

definition initial_state :: "'a state" where
  "initial_state = \<lparr>heap = [], registry = []\<rparr>"

section \<open>Construction\<close>

text \<open>
  \<^verbatim>\<open>Tensor.__init__\<close>. The data arrives as an array (the conversion by \<^verbatim>\<open>np.array\<close> is not
  modelled). Storing under a key of the registry appends the key unless it is there.
\<close>

definition Tensor_init :: "'a ndarray \<Rightarrow> TensorType \<Rightarrow> 'a state \<Rightarrow> nat \<times> 'a state" where
  "Tensor_init d ty st =
     (let self = id_counter st;
          t = \<lparr>data = d, shape = nd_shape d, grad_fn = None, grad = None,
               children = [], parents = [], stale = False, extra = [], version = 0,
               tensor_type = ty,
               requires_grad = (if ty = PARAMETER then True else False)\<rparr>
      in (self, \<lparr>heap = heap st @ [t],
                 registry = (if self \<in> set (registry st) then registry st
                             else registry st @ [self])\<rparr>))"

text \<open>
  \<^verbatim>\<open>Tensor._create_node\<close>. \<^verbatim>\<open>_extra\<close> is empty after \<^verbatim>\<open>__init__\<close>, so updating it with
  \<^verbatim>\<open>extra\<close> leaves the entries of \<^verbatim>\<open>extra\<close>; no \<^verbatim>\<open>extra\<close> is the empty list.
  \<open>link_children\<close> is its loop \<^verbatim>\<open>for parent in parents: parent._children.append(node)\<close>.
\<close>

definition link_children :: "nat \<Rightarrow> nat list \<Rightarrow> 'a state \<Rightarrow> 'a state" where
  "link_children node ps st =
     foldl (\<lambda>s parent. modify parent (\<lambda>t. t\<lparr>children := children t @ [node]\<rparr>) s) st ps"

definition create_node ::
  "'a ndarray \<Rightarrow> grad_fn option \<Rightarrow> nat list \<Rightarrow> (string \<times> 'a extra_value) list \<Rightarrow> 'a state
   \<Rightarrow> nat \<times> 'a state" where
  "create_node d gfn ps ex st =
     (let (node, st1) = Tensor_init d INTERMEDIATE st;
          st2 = modify node (\<lambda>t. t\<lparr>grad_fn := gfn\<rparr>) st1;
          st3 = modify node (\<lambda>t. t\<lparr>parents := ps\<rparr>) st2;
          st4 = modify node (\<lambda>t. t\<lparr>requires_grad := (\<exists>p \<in> set ps. requires_grad_of st3 p)\<rparr>) st3;
          st5 = modify node (\<lambda>t. t\<lparr>extra := ex\<rparr>) st4;
          st6 = link_children node ps st5
      in (node, st6))"

section \<open>Operations\<close>

text \<open>
  A method returns its result or the exception it raises, and the state it leaves behind.
  The right operand of an operator is a tensor or a Python number.
\<close>

datatype 'a operand = TensorArg nat | ScalarArg 'a

type_synonym ('a, 'r) outcome = "(error + 'r) \<times> 'a state"

text \<open>\<^verbatim>\<open>Tensor.T\<close>.\<close>

definition Tensor_T :: "nat \<Rightarrow> 'a state \<Rightarrow> ('a, nat) outcome" where
  "Tensor_T self st =
     (case lookup st self of
        None \<Rightarrow> (Inl InvalidReference, st)
      | Some t \<Rightarrow>
          if grad_fn t = Some transpose_backward \<and> length (parents t) = 1
          then (Inr (hd (parents t)), modify self (\<lambda>t. t\<lparr>stale := True\<rparr>) st)
          else (let (n, st') = create_node (nd_T (data t)) (Some transpose_backward) [self] [] st
                in (Inr n, st')))"

text \<open>
  \<^verbatim>\<open>__add__\<close>, \<^verbatim>\<open>__sub__\<close> and \<^verbatim>\<open>__mul__\<close> differ in the operator, the gradient functions and
  the word in the message; \<open>binary_op\<close> is their common body.
\<close>

definition binary_op ::
  "('a \<Rightarrow> 'a \<Rightarrow> 'a) \<Rightarrow> grad_fn \<Rightarrow> grad_fn \<Rightarrow> string \<Rightarrow> nat \<Rightarrow> 'a operand \<Rightarrow> 'a state
   \<Rightarrow> ('a, nat) outcome" where
  "binary_op f gfn_tensor gfn_scalar msg self other st =
     (case lookup st self of
        None \<Rightarrow> (Inl InvalidReference, st)
      | Some t \<Rightarrow>
          (case other of
             TensorArg o_addr \<Rightarrow>
               (case lookup st o_addr of
                  None \<Rightarrow> (Inl InvalidReference, st)
                | Some u \<Rightarrow>
                    if shape t \<noteq> shape u then (Inl (ValueError msg), st)
                    else (let (n, st') = create_node (nd_zip f (data t) (data u)) (Some gfn_tensor)
                                           [self, o_addr] [] st
                          in (Inr n, st')))
           | ScalarArg s \<Rightarrow>
               (let (n, st') = create_node (nd_map (\<lambda>x. f x s) (data t)) (Some gfn_scalar)
                                 [self] [(''scalar_value'', Number s)] st
                in (Inr n, st'))))"

definition Tensor_add :: "nat \<Rightarrow> 'a::plus operand \<Rightarrow> 'a state \<Rightarrow> ('a, nat) outcome" where
  "Tensor_add = binary_op (+) add_backward add_scalar_backward ''Shape mismatch for addition''"

definition Tensor_radd :: "nat \<Rightarrow> 'a::plus operand \<Rightarrow> 'a state \<Rightarrow> ('a, nat) outcome" where
  "Tensor_radd self other st = Tensor_add self other st"

definition Tensor_sub :: "nat \<Rightarrow> 'a::minus operand \<Rightarrow> 'a state \<Rightarrow> ('a, nat) outcome" where
  "Tensor_sub = binary_op (-) sub_backward sub_scalar_backward ''Shape mismatch for subtraction''"

definition Tensor_rsub :: "nat \<Rightarrow> 'a::minus operand \<Rightarrow> 'a state \<Rightarrow> ('a, nat) outcome" where
  "Tensor_rsub self other st = Tensor_sub self other st"

definition Tensor_mul :: "nat \<Rightarrow> 'a::times operand \<Rightarrow> 'a state \<Rightarrow> ('a, nat) outcome" where
  "Tensor_mul = binary_op (*) mul_backward mul_scalar_backward ''Shape mismatch for multiplication''"

definition Tensor_rmul :: "nat \<Rightarrow> 'a::times operand \<Rightarrow> 'a state \<Rightarrow> ('a, nat) outcome" where
  "Tensor_rmul self other st = Tensor_mul self other st"

text \<open>
  \<^verbatim>\<open>__matmul__\<close>. NumPy's matrix product of the two buffers is the parameter \<open>mm\<close>; it may
  raise (batch dimensions that cannot be broadcast), and it is evaluated before
  \<^verbatim>\<open>_create_node\<close> is called.
\<close>

definition Tensor_matmul ::
  "('a ndarray \<Rightarrow> 'a ndarray \<Rightarrow> error + 'a ndarray) \<Rightarrow> nat \<Rightarrow> 'a operand \<Rightarrow> 'a state
   \<Rightarrow> ('a, nat) outcome" where
  "Tensor_matmul mm self other st =
     (case lookup st self of
        None \<Rightarrow> (Inl InvalidReference, st)
      | Some t \<Rightarrow>
          (case other of
             ScalarArg s \<Rightarrow>
               (Inl (TypeError ''Right operand must be a Tensor for matrix multiplication.''), st)
           | TensorArg o_addr \<Rightarrow>
               (case lookup st o_addr of
                  None \<Rightarrow> (Inl InvalidReference, st)
                | Some u \<Rightarrow>
                    if length (shape t) < 2 \<or> length (shape u) < 2
                    then (Inl (ValueError ''Matrix multiplication requires at least 2D tensors.''), st)
                    else if last (shape t) \<noteq> last (butlast (shape u))
                    then (Inl (ValueError ''Matrix shapes not aligned''), st)
                    else (case mm (data t) (data u) of
                            Inl e \<Rightarrow> (Inl e, st)
                          | Inr d \<Rightarrow>
                              (let (n, st') = create_node d (Some matmul_backward) [self, o_addr] [] st
                               in (Inr n, st'))))))"

text \<open>\<^verbatim>\<open>__neg__\<close>.\<close>

definition Tensor_neg :: "nat \<Rightarrow> 'a::uminus state \<Rightarrow> ('a, nat) outcome" where
  "Tensor_neg self st =
     (case lookup st self of
        None \<Rightarrow> (Inl InvalidReference, st)
      | Some t \<Rightarrow>
          (let (n, st') = create_node (nd_map uminus (data t)) (Some negate_backward) [self] [] st
           in (Inr n, st')))"

text \<open>
  \<^verbatim>\<open>reshape\<close>. The new shape is a tuple of dimensions, each a natural number (NumPy's \<open>-1\<close>
  for an inferred dimension is not modelled), and the products are exact.
\<close>

definition Tensor_reshape :: "nat \<Rightarrow> nat list \<Rightarrow> 'a state \<Rightarrow> ('a, nat) outcome" where
  "Tensor_reshape self new_shape st =
     (case lookup st self of
        None \<Rightarrow> (Inl InvalidReference, st)
      | Some t \<Rightarrow>
          if prod_list new_shape \<noteq> prod_list (shape t)
          then (Inl (ValueError ''New shape must have the same number of elements as the original shape.''), st)
          else (let (n, st') = create_node (nd_reshape (data t) new_shape) (Some reshape_backward)
                                 [self] [(''original_shape'', Shape (shape t))] st
                in (Inr n, st')))"

text \<open>The setter of the property \<^verbatim>\<open>grad\<close>.\<close>

definition set_grad :: "nat \<Rightarrow> 'a ndarray \<Rightarrow> 'a state \<Rightarrow> 'a state" where
  "set_grad self v st = modify self (\<lambda>t. t\<lparr>grad := Some v\<rparr>) st"

section \<open>Loops that may raise\<close>

text \<open>
  A \<^verbatim>\<open>for\<close> loop whose body may raise stops at the first exception, in the state reached
  by then.
\<close>

fun for_each :: "('x \<Rightarrow> 's \<Rightarrow> error option \<times> 's) \<Rightarrow> 'x list \<Rightarrow> 's \<Rightarrow> error option \<times> 's" where
  "for_each body [] st = (None, st)"
| "for_each body (x # xs) st =
     (case body x st of
        (Some e, st') \<Rightarrow> (Some e, st')
      | (None, st') \<Rightarrow> for_each body xs st')"

section \<open>The reclaimer\<close>

text \<open>\<^verbatim>\<open>parent._children.remove(tensor)\<close>: the first occurrence goes, and there has to be one.\<close>

definition remove_child :: "nat \<Rightarrow> nat \<Rightarrow> 'a state \<Rightarrow> error option \<times> 'a state" where
  "remove_child tensor parent st =
     (if tensor \<in> set (children_of st parent)
      then (None, modify parent (\<lambda>t. t\<lparr>children := remove1 tensor (children t)\<rparr>) st)
      else (Some (ValueError ''list.remove(x): x not in list''), st))"

text \<open>\<^verbatim>\<open>child._parents = tuple(p for p in child._parents if p._id != tensor._id)\<close>.\<close>

definition prune_parent :: "nat \<Rightarrow> nat \<Rightarrow> 'a state \<Rightarrow> 'a state" where
  "prune_parent tensor child st =
     modify child (\<lambda>c. c\<lparr>parents := filter (\<lambda>p. p \<noteq> tensor) (parents c)\<rparr>) st"

text \<open>The loop \<^verbatim>\<open>for child in tensor._children\<close> around that assignment.\<close>

definition prune_all :: "nat \<Rightarrow> nat list \<Rightarrow> 'a state \<Rightarrow> 'a state" where
  "prune_all tensor cs st = foldl (\<lambda>s child. prune_parent tensor child s) st cs"

text \<open>The body of the loop of \<^verbatim>\<open>clear_stale_tensors\<close>, for one tensor of the registry.\<close>

definition clear_one :: "nat \<Rightarrow> 'a state \<Rightarrow> error option \<times> 'a state" where
  "clear_one tensor st =
     (if stale_of st tensor
      then (case for_each (remove_child tensor) (parents_of st tensor) st of
              (Some e, st1) \<Rightarrow> (Some e, st1)
            | (None, st1) \<Rightarrow>
                (let st2 = prune_all tensor (children_of st1 tensor) st1
                 in if tensor \<in> set (registry st2)
                    then (None, st2\<lparr>registry := removeAll tensor (registry st2)\<rparr>)
                    else (Some KeyError, st2)))
      else (None, st))"

text \<open>\<^verbatim>\<open>Tensor.clear_stale_tensors\<close>: the loop runs over a copy of the registry's values.\<close>

definition clear_stale_tensors :: "'a state \<Rightarrow> error option \<times> 'a state" where
  "clear_stale_tensors st = for_each clear_one (registry st) st"

section \<open>The backward pass\<close>

text \<open>
  NumPy's \<open>+\<close> between two arrays, as \<^verbatim>\<open>backward\<close> uses it on gradients: element by element
  when the shapes agree, otherwise the shapes are broadcast (aligned at the last axis, an
  axis of length one repeated), and \<^verbatim>\<open>ValueError\<close> when they cannot be.
\<close>

fun broadcast_rev :: "nat list \<Rightarrow> nat list \<Rightarrow> nat list option" where
  "broadcast_rev [] ys = Some ys"
| "broadcast_rev xs [] = Some xs"
| "broadcast_rev (x # xs) (y # ys) =
     (if x = y \<or> y = 1 then map_option ((#) x) (broadcast_rev xs ys)
      else if x = 1 then map_option ((#) y) (broadcast_rev xs ys)
      else None)"

definition broadcast_shapes :: "nat list \<Rightarrow> nat list \<Rightarrow> nat list option" where
  "broadcast_shapes a b = map_option rev (broadcast_rev (rev a) (rev b))"

definition broadcast_index :: "nat list \<Rightarrow> nat list \<Rightarrow> nat \<Rightarrow> nat" where
  "broadcast_index s r k =
     ravel s (map2 (\<lambda>d j. if d = 1 then 0 else j) s (drop (length r - length s) (unravel r k)))"

definition np_add :: "'a::plus ndarray \<Rightarrow> 'a ndarray \<Rightarrow> error + 'a ndarray" where
  "np_add a b =
     (if nd_shape a = nd_shape b then Inr (nd_zip (+) a b)
      else (case broadcast_shapes (nd_shape a) (nd_shape b) of
              None \<Rightarrow> Inl (ValueError ''operands could not be broadcast together'')
            | Some r \<Rightarrow>
                Inr \<lparr>nd_shape = r,
                     nd_elems = map (\<lambda>k. nd_elems a ! broadcast_index (nd_shape a) r k
                                        + nd_elems b ! broadcast_index (nd_shape b) r k)
                                    [0 ..< prod_list r]\<rparr>))"

text \<open>
  \<^verbatim>\<open>build_topo\<close>, the function nested in \<^verbatim>\<open>backward\<close>, with the two variables it closes over
  (\<^verbatim>\<open>visited\<close> and \<^verbatim>\<open>topo_order\<close>) passed in and returned. \<open>build_topo_parents\<close> is its loop
  over \<^verbatim>\<open>node._parents\<close>. Python's limit on the depth of recursion is not modelled.
\<close>

function build_topo :: "'a state \<Rightarrow> nat \<Rightarrow> nat set \<times> nat list \<Rightarrow> nat set \<times> nat list"
  and build_topo_parents :: "'a state \<Rightarrow> nat list \<Rightarrow> nat set \<times> nat list \<Rightarrow> nat set \<times> nat list"
  where
  "build_topo st node (visited, topo_order) =
     (if node \<in> visited \<or> \<not> requires_grad_of st node then (visited, topo_order)
      else (let (visited', topo_order') =
                  build_topo_parents st (parents_of st node) (insert node visited, topo_order)
            in (visited', topo_order' @ [node])))"
| "build_topo_parents st [] acc = acc"
| "build_topo_parents st (parent # rest) acc =
     build_topo_parents st rest (build_topo st parent acc)"
  by pat_completeness auto

text \<open>
  Termination: a call on a node that is not yet visited and requires gradients marks an
  address of the store that was unmarked, and no call unmarks one.
\<close>

definition unvisited :: "'a state \<Rightarrow> nat set \<Rightarrow> nat" where
  "unvisited st visited = card ({..< length (heap st)} - visited)"

lemma unvisited_mono: "V \<subseteq> W \<Longrightarrow> unvisited st W \<le> unvisited st V"
  unfolding unvisited_def by (intro card_mono) auto

lemma unvisited_insert:
  "node \<notin> V \<Longrightarrow> requires_grad_of st node \<Longrightarrow> unvisited st (insert node V) < unvisited st V"
  unfolding unvisited_def requires_grad_of_def lookup_def
  by (intro psubset_card_mono) (auto split: if_splits)

lemma build_topo_visited_grows:
  "build_topo_build_topo_parents_dom (Inl (st, node, acc)) \<Longrightarrow> fst acc \<subseteq> fst (build_topo st node acc)"
  "build_topo_build_topo_parents_dom (Inr (st, ps, acc)) \<Longrightarrow> fst acc \<subseteq> fst (build_topo_parents st ps acc)"
proof (induction st node acc and st ps acc rule: build_topo_build_topo_parents.pinduct)
  case (1 st node visited topo_order)
  then show ?case
    by (auto simp: build_topo.psimps split: prod.splits)
next
  case (2 st acc)
  then show ?case by (simp add: build_topo_parents.psimps)
next
  case (3 st parent rest acc)
  then show ?case by (auto simp: build_topo_parents.psimps)
qed

termination build_topo
proof (relation "measures [\<lambda>x. case x of Inl (st, node, acc) \<Rightarrow> unvisited st (fst acc)
                                          | Inr (st, ps, acc) \<Rightarrow> unvisited st (fst acc),
                            \<lambda>x. case x of Inl (st, node, acc) \<Rightarrow> 0
                                          | Inr (st, ps, acc) \<Rightarrow> Suc (length ps)]", goal_cases)
  case 1
  then show ?case by simp
next
  case (2 st node visited topo_order)
  then show ?case by (simp add: unvisited_insert)
next
  case (3 st parent rest acc)
  then show ?case by simp
next
  case (4 st parent rest acc)
  from build_topo_visited_grows(1)[OF 4]
  have "unvisited st (fst (build_topo st parent acc)) \<le> unvisited st (fst acc)"
    by (rule unvisited_mono)
  then show ?case by auto
qed

text \<open>
  The gradient functions are in \<^verbatim>\<open>grad.py\<close>, which is not among the sources: \<open>gf\<close> stands
  for the call \<^verbatim>\<open>node._grad_fn(node, node._grad)\<close>. It reads the graph, returns the tuple
  of gradients or raises, and changes nothing.
\<close>

type_synonym 'a grad_call = "grad_fn \<Rightarrow> 'a state \<Rightarrow> nat \<Rightarrow> 'a ndarray \<Rightarrow> error + 'a ndarray list"

text \<open>The body of the loop over \<^verbatim>\<open>zip(node._parents, gradients)\<close>.\<close>

definition accumulate :: "nat \<times> 'a::plus ndarray \<Rightarrow> 'a state \<Rightarrow> error option \<times> 'a state" where
  "accumulate pg st =
     (case pg of (parent, g) \<Rightarrow>
        if requires_grad_of st parent
        then (case grad_of st parent of
                None \<Rightarrow> (None, set_grad parent g st)
              | Some old \<Rightarrow>
                  (case np_add old g of
                     Inl e \<Rightarrow> (Some e, st)
                   | Inr s \<Rightarrow> (None, set_grad parent s st)))
        else (None, st))"

text \<open>The body of the loop over \<^verbatim>\<open>reversed(topo_order)\<close>.\<close>

definition process_node ::
  "'a::plus grad_call \<Rightarrow> bool \<Rightarrow> nat \<Rightarrow> nat \<Rightarrow> 'a state \<Rightarrow> error option \<times> 'a state" where
  "process_node gf keep_grads self node st =
     (case lookup st node of
        None \<Rightarrow> (None, st)
      | Some t \<Rightarrow>
          (case (grad_fn t, grad t) of
             (Some f, Some g) \<Rightarrow>
               (case gf f st node g of
                  Inl e \<Rightarrow> (Some e, st)
                | Inr gradients \<Rightarrow>
                    (case for_each accumulate (zip (parents t) gradients) st of
                       (Some e, st') \<Rightarrow> (Some e, st')
                     | (None, st') \<Rightarrow>
                         if \<not> keep_grads \<and> tensor_type t = INTERMEDIATE \<and> node \<noteq> self
                         then (None, modify node (\<lambda>t. t\<lparr>grad := None\<rparr>) st')
                         else (None, st')))
           | _ \<Rightarrow> (None, st)))"

text \<open>The order that \<^verbatim>\<open>backward\<close> builds: \<^verbatim>\<open>build_topo(self)\<close> from nothing visited.\<close>

definition topo_order_of :: "'a state \<Rightarrow> nat \<Rightarrow> nat list" where
  "topo_order_of st self = snd (build_topo st self ({}, []))"

text \<open>
  \<^verbatim>\<open>Tensor.backward\<close>. The gradient given by the caller is an array (a Python number is the
  array of no axes holding it).
\<close>

definition backward ::
  "'a::{plus,one} grad_call \<Rightarrow> nat \<Rightarrow> 'a ndarray option \<Rightarrow> bool \<Rightarrow> 'a state \<Rightarrow> error option \<times> 'a state" where
  "backward gf self gradient keep_grads st =
     (case clear_stale_tensors st of
        (Some e, st0) \<Rightarrow> (Some e, st0)
      | (None, st0) \<Rightarrow>
          (case lookup st0 self of
             None \<Rightarrow> (Some InvalidReference, st0)
           | Some t \<Rightarrow>
               if \<not> requires_grad t
               then (Some (RuntimeError ''Tensor does not require gradients''), st0)
               else if gradient = None \<and> nd_size (data t) \<noteq> 1
               then (Some (RuntimeError ''Gradient can only be implicitly created for scalar outputs''), st0)
               else (let g = (case gradient of None \<Rightarrow> ones_like (data t) | Some g \<Rightarrow> g);
                         topo_order = topo_order_of st0 self;
                         st1 = set_grad self g st0
                     in for_each (process_node gf keep_grads self) (rev topo_order) st1)))"

section \<open>Vocabulary of the statements\<close>

text \<open>The buffer of a tensor, read through a reference.\<close>

definition data_of :: "'a state \<Rightarrow> nat \<Rightarrow> 'a ndarray option" where
  "data_of st i = map_option data (lookup st i)"

text \<open>
  What \<^verbatim>\<open>_create_node\<close> leaves in the slots of the node it makes, apart from the children a
  node would get by being its own parent.
\<close>

definition new_node ::
  "'a ndarray \<Rightarrow> grad_fn option \<Rightarrow> nat list \<Rightarrow> (string \<times> 'a extra_value) list \<Rightarrow> 'a state \<Rightarrow> 'a tensor" where
  "new_node d gfn ps ex st =
     \<lparr>data = d, shape = nd_shape d, grad_fn = gfn, grad = None, children = [], parents = ps,
      stale = False, extra = ex, version = 0, tensor_type = INTERMEDIATE,
      requires_grad = (\<exists>p \<in> set ps. requires_grad_of st p)\<rparr>"

text \<open>What \<open>link_children\<close> does to the tensor at address \<open>j\<close>.\<close>

definition add_children :: "nat list \<Rightarrow> nat \<Rightarrow> nat \<Rightarrow> 'a tensor \<Rightarrow> 'a tensor" where
  "add_children ps node j t = t\<lparr>children := children t @ replicate (count_list ps j) node\<rparr>"

text \<open>
  An operation keeps a slot when every tensor that was in the store is still there with the
  slot's value as it was.
\<close>

definition keeps :: "('a tensor \<Rightarrow> 'b) \<Rightarrow> 'a state \<Rightarrow> 'a state \<Rightarrow> bool" where
  "keeps sel st st' \<longleftrightarrow>
     length (heap st) \<le> length (heap st') \<and>
     (\<forall>i < length (heap st). sel (heap st' ! i) = sel (heap st ! i))"

text \<open>A one-dimensional array, and the graph of one parameter \<^verbatim>\<open>Tensor([5.0], PARAMETER)\<close>.\<close>

definition vec :: "'a list \<Rightarrow> 'a ndarray" where
  "vec xs = \<lparr>nd_shape = [length xs], nd_elems = xs\<rparr>"

definition one_leaf :: "int state" where
  "one_leaf = snd (Tensor_init (vec [5]) PARAMETER initial_state)"

text \<open>
  A matrix, and the graph of four leaves: \<^verbatim>\<open>Tensor([1, 2, 3], PARAMETER)\<close>,
  \<^verbatim>\<open>Tensor([[1, 2], [3, 4]], PARAMETER)\<close>, \<^verbatim>\<open>Tensor([[1, 2, 3]])\<close> and \<^verbatim>\<open>Tensor([5], PARAMETER)\<close>.
\<close>

definition mat :: "nat \<Rightarrow> nat \<Rightarrow> 'a list \<Rightarrow> 'a ndarray" where
  "mat r c xs = \<lparr>nd_shape = [r, c], nd_elems = xs\<rparr>"

definition four_leaves :: "int state" where
  "four_leaves =
     snd (Tensor_init (vec [5]) PARAMETER
       (snd (Tensor_init (mat 1 3 [1, 2, 3]) INPUT
         (snd (Tensor_init (mat 2 2 [1, 2, 3, 4]) PARAMETER
           (snd (Tensor_init (vec [1, 2, 3]) PARAMETER initial_state)))))))"

text \<open>The graph of one parameter without elements, \<^verbatim>\<open>Tensor([], PARAMETER)\<close>.\<close>

definition empty_leaf :: "int state" where
  "empty_leaf = snd (Tensor_init (vec []) PARAMETER initial_state)"

text \<open>A gradient function that returns no gradient.\<close>

definition no_gradients :: "int grad_call" where
  "no_gradients f st node g = Inr []"

text \<open>
  Every parent of a tensor was made before the tensor: \<^verbatim>\<open>_create_node\<close> receives tensors
  that exist and makes a new one, and the reclaimer only shortens a tuple of parents.
\<close>

definition parents_older :: "'a state \<Rightarrow> bool" where
  "parents_older st \<longleftrightarrow>
     (\<forall>(i, t) \<in> set (enumerate 0 (heap st)). \<forall>p \<in> set (parents t). p < i)"

text \<open>
  \<open>grad_path st n m\<close>: \<open>m\<close> is reached from \<open>n\<close> along \<^verbatim>\<open>_parents\<close> through tensors that all
  require gradients, \<open>n\<close> and \<open>m\<close> included.
\<close>

inductive grad_path :: "'a state \<Rightarrow> nat \<Rightarrow> nat \<Rightarrow> bool" for st where
  here: "requires_grad_of st n \<Longrightarrow> grad_path st n n"
| step: "requires_grad_of st n \<Longrightarrow> p \<in> set (parents_of st n) \<Longrightarrow> grad_path st p m
         \<Longrightarrow> grad_path st n m"

text \<open>In an order, every parent that requires gradients stands before its child.\<close>

definition parents_first :: "'a state \<Rightarrow> nat list \<Rightarrow> bool" where
  "parents_first st order \<longleftrightarrow>
     (\<forall>i < length order. \<forall>p \<in> set (parents_of st (order ! i)).
        requires_grad_of st p \<longrightarrow> p \<in> set (take i order))"

text \<open>
  The graph of \<^verbatim>\<open>a = Tensor([1], PARAMETER)\<close>, \<^verbatim>\<open>x = Tensor([4])\<close>, \<^verbatim>\<open>b = a * 2\<close>,
  \<^verbatim>\<open>c = a * x\<close> and \<^verbatim>\<open>d = b + c\<close>, at the addresses 0 to 4.
\<close>

definition diamond :: "int state" where
  "diamond =
     snd (Tensor_add 2 (TensorArg 3)
       (snd (Tensor_mul 0 (TensorArg 1)
         (snd (Tensor_mul 0 (ScalarArg 2)
           (snd (Tensor_init (vec [4]) INPUT
             (snd (Tensor_init (vec [1]) PARAMETER initial_state)))))))))"

text \<open>
  The shape of the graphs that the operations of the module build. References point into
  the store; the registry lists a key once; only a transposed node is ever stale, and a
  transposed node has one parent, which is not itself transposed (\<^verbatim>\<open>T\<close> of a transposed node
  returns its parent instead of making a node); between two registered tensors the tuple of
  parents of one and the list of children of the other agree, occurrence by occurrence; a
  tensor leaves the registry only by being reclaimed, so a tensor that is not stale is
  registered; and parents are older than their children.
\<close>

definition grad_fn_of :: "'a state \<Rightarrow> nat \<Rightarrow> grad_fn option" where
  "grad_fn_of st i = (case lookup st i of Some t \<Rightarrow> grad_fn t | None \<Rightarrow> None)"

definition refs_valid :: "'a state \<Rightarrow> bool" where
  "refs_valid st \<longleftrightarrow>
     (\<forall>t \<in> set (heap st).
        (\<forall>p \<in> set (parents t). p < length (heap st)) \<and>
        (\<forall>c \<in> set (children t). c < length (heap st))) \<and>
     (\<forall>i \<in> set (registry st). i < length (heap st))"

definition transposes_ok :: "'a state \<Rightarrow> bool" where
  "transposes_ok st \<longleftrightarrow>
     (\<forall>t \<in> set (heap st).
        (stale t \<longrightarrow> grad_fn t = Some transpose_backward) \<and>
        (grad_fn t = Some transpose_backward \<longrightarrow>
           (case parents t of
              [p] \<Rightarrow> grad_fn_of st p \<noteq> Some transpose_backward
            | _ \<Rightarrow> False)))"

definition links_agree :: "'a state \<Rightarrow> bool" where
  "links_agree st \<longleftrightarrow>
     (\<forall>c \<in> set (registry st). \<forall>p \<in> set (registry st).
        count_list (parents_of st c) p = count_list (children_of st p) c)"

definition live_registered :: "'a state \<Rightarrow> bool" where
  "live_registered st \<longleftrightarrow>
     (\<forall>(i, t) \<in> set (enumerate 0 (heap st)). \<not> stale t \<longrightarrow> i \<in> set (registry st))"

definition well_formed :: "'a state \<Rightarrow> bool" where
  "well_formed st \<longleftrightarrow>
     refs_valid st \<and> distinct (registry st) \<and> transposes_ok st \<and> links_agree st \<and>
     live_registered st \<and> parents_older st"

text \<open>
  \<open>reclaimed D st st'\<close>: what the reclaimer has done when it has removed the tensors \<open>D\<close>. The
  tensors of \<open>D\<close> are gone from the registry and from every tuple of parents, and from the list
  of children of every tensor that is still registered; no list of children has grown; and
  nothing but parents and children has changed in any tensor.
\<close>

definition same_but_links :: "'a tensor \<Rightarrow> 'a tensor \<Rightarrow> bool" where
  "same_but_links t t' \<longleftrightarrow> t'\<lparr>parents := [], children := []\<rparr> = t\<lparr>parents := [], children := []\<rparr>"

definition reclaimed :: "nat set \<Rightarrow> 'a state \<Rightarrow> 'a state \<Rightarrow> bool" where
  "reclaimed D st st' \<longleftrightarrow>
     length (heap st') = length (heap st) \<and>
     registry st' = filter (\<lambda>i. i \<notin> D) (registry st) \<and>
     (\<forall>u < length (heap st).
        same_but_links (heap st ! u) (heap st' ! u) \<and>
        parents (heap st' ! u) = filter (\<lambda>p. p \<notin> D) (parents (heap st ! u)) \<and>
        set (children (heap st' ! u)) \<subseteq> set (children (heap st ! u)) \<and>
        (u \<in> set (registry st') \<longrightarrow>
           children (heap st' ! u) = filter (\<lambda>c. c \<notin> D) (children (heap st ! u))))"


text \<open>
  The graph of \<^verbatim>\<open>a = Tensor([[1, 2]], PARAMETER)\<close>, \<^verbatim>\<open>t = a.T()\<close>, \<^verbatim>\<open>y = t + 1\<close> and then
  \<^verbatim>\<open>t.T()\<close>, which returns \<open>a\<close> and leaves \<open>t\<close> stale; at the addresses 0, 1 and 2.
\<close>

definition stale_example :: "int state" where
  "stale_example =
     snd (Tensor_T 1
       (snd (Tensor_add 1 (ScalarArg 1)
         (snd (Tensor_T 0
           (snd (Tensor_init (mat 1 2 [1, 2]) PARAMETER initial_state)))))))"

text \<open>
  The graph of \<^verbatim>\<open>a = Tensor([[1, 2]], PARAMETER)\<close> alone, and the graph after \<^verbatim>\<open>x = a.T()\<close>.
\<close>

definition matrix_leaf :: "int state" where
  "matrix_leaf = snd (Tensor_init (mat 1 2 [1, 2]) PARAMETER initial_state)"

definition transposed_leaf :: "int state" where
  "transposed_leaf = snd (Tensor_T 0 matrix_leaf)"

text \<open>
  \<open>only_grads st st'\<close>: the two states hold the same tensors and the same registry, and a
  tensor differs at most in its \<^verbatim>\<open>_grad\<close>. \<open>tensor_type_of\<close> reads the type through a
  reference.
\<close>

definition only_grads :: "'a state \<Rightarrow> 'a state \<Rightarrow> bool" where
  "only_grads st st' \<longleftrightarrow>
     length (heap st') = length (heap st) \<and> registry st' = registry st \<and>
     (\<forall>i < length (heap st). (heap st' ! i)\<lparr>grad := None\<rparr> = (heap st ! i)\<lparr>grad := None\<rparr>)"

definition tensor_type_of :: "'a state \<Rightarrow> nat \<Rightarrow> TensorType option" where
  "tensor_type_of st i = map_option tensor_type (lookup st i)"


text \<open>The two exceptions of the checks of \<^verbatim>\<open>backward\<close>.\<close>

definition GradientNotRequired :: error where
  "GradientNotRequired = RuntimeError ''Tensor does not require gradients''"

definition NonScalarImplicitGradient :: error where
  "NonScalarImplicitGradient =
     RuntimeError ''Gradient can only be implicitly created for scalar outputs''"

text \<open>What NumPy raises when two shapes cannot be broadcast.\<close>

definition BroadcastError :: error where
  "BroadcastError = ValueError ''operands could not be broadcast together''"

text \<open>
  Three leaves and a stale node: an input \<open>[[1, 2]]\<close> (reference 0), a parameter \<open>[5]\<close>
  (reference 1), a parameter \<open>[1, 2, 3]\<close> (reference 2), then \<^verbatim>\<open>t = x0.T()\<close> (reference 3) and
  \<^verbatim>\<open>t.T()\<close>, which returns the input and marks \<^verbatim>\<open>t\<close> stale. \<open>reclaimed_leaves\<close> is the same
  graph once the stale node has left the registry and the children of the input.
\<close>

definition stale_leaves :: "int state" where
  "stale_leaves =
     snd (Tensor_T 3
       (snd (Tensor_T 0
         (snd (Tensor_init (vec [1, 2, 3]) PARAMETER
           (snd (Tensor_init (vec [5]) PARAMETER
             (snd (Tensor_init (mat 1 2 [1, 2]) INPUT initial_state)))))))))"

definition reclaimed_leaves :: "int state" where
  "reclaimed_leaves =
   \<lparr>heap =
    [\<lparr>data = mat 1 2 [1, 2], shape = [1, 2], grad_fn = None, grad = None, children = [],
        parents = [], stale = False, extra = [], version = 0, tensor_type = INPUT,
        requires_grad = False\<rparr>,
     \<lparr>data = vec [5], shape = [1], grad_fn = None, grad = None, children = [],
        parents = [], stale = False, extra = [], version = 0, tensor_type = PARAMETER,
        requires_grad = True\<rparr>,
     \<lparr>data = vec [1, 2, 3], shape = [3], grad_fn = None, grad = None, children = [],
        parents = [], stale = False, extra = [], version = 0, tensor_type = PARAMETER,
        requires_grad = True\<rparr>,
     \<lparr>data = mat 2 1 [1, 2], shape = [2, 1], grad_fn = Some transpose_backward, grad = None,
        children = [], parents = [0], stale = True, extra = [], version = 0,
        tensor_type = INTERMEDIATE, requires_grad = False\<rparr>],
    registry = [0, 1, 2]\<rparr>"

text \<open>
  The gradients that a list of pairs \<^verbatim>\<open>zip(node._parents, gradients)\<close> holds for the parent
  \<open>p\<close>, in the order of the list; and what the slot \<^verbatim>\<open>_grad\<close> of a parent becomes when it
  receives them one after the other: the first one is stored if the slot was empty, and
  every other one is added by NumPy's \<open>+\<close>, which may raise.
\<close>

definition gradients_for :: "nat \<Rightarrow> (nat \<times> 'a ndarray) list \<Rightarrow> 'a ndarray list" where
  "gradients_for p pgs = map snd (filter (\<lambda>pg. fst pg = p) pgs)"

fun sum_contributions :: "'a::plus ndarray option \<Rightarrow> 'a ndarray list \<Rightarrow> error + 'a ndarray option" where
  "sum_contributions old [] = Inr old"
| "sum_contributions None (g # gs) = sum_contributions (Some g) gs"
| "sum_contributions (Some old) (g # gs) =
     (case np_add old g of Inl e \<Rightarrow> Inl e | Inr s \<Rightarrow> sum_contributions (Some s) gs)"

text \<open>The number that a product or a sum with a number stores in \<^verbatim>\<open>_extra\<close>.\<close>

definition scalar_of :: "'a state \<Rightarrow> nat \<Rightarrow> 'a option" where
  "scalar_of st node =
     (case lookup st node of
        None \<Rightarrow> None
      | Some t \<Rightarrow> (case map_of (extra t) ''scalar_value'' of Some (Number s) \<Rightarrow> Some s | _ \<Rightarrow> None))"

text \<open>
  Modelled from the spec: the gradient functions of \<^verbatim>\<open>grad.py\<close>, which is not among the
  sources, for the sum of two tensors, the product of a tensor and a number and the
  product of two tensors of the same shape. They follow the chain rule (section 4.3 of the
  specification): one gradient for each parent, in the order of the parents; a sum hands
  its gradient to both parents, a product with the number \<open>s\<close> hands \<open>g * s\<close>, and a product
  of \<open>a\<close> and \<open>b\<close> hands \<open>g * b\<close> and \<open>g * a\<close>. The other gradient functions are not
  modelled and raise here. It is used for the examples only: the statements hold for every
  \<open>gf\<close>.
\<close>

definition chain_rule :: "'a::{plus,times} grad_call" where
  "chain_rule f st node g =
     (if f = add_backward then Inr [g, g]
      else if f = mul_scalar_backward then
        (case scalar_of st node of
           Some s \<Rightarrow> Inr [nd_map (\<lambda>x. x * s) g]
         | None \<Rightarrow> Inl KeyError)
      else if f = mul_backward then
        (case map (data_of st) (parents_of st node) of
           [Some a, Some b] \<Rightarrow> Inr [nd_zip (*) g b, nd_zip (*) g a]
         | _ \<Rightarrow> Inl InvalidReference)
      else Inl (RuntimeError ''no gradient function''))"

text \<open>\<open>graded gs st\<close>: the graph \<open>st\<close> with the gradients \<open>gs\<close> in the slots \<^verbatim>\<open>_grad\<close>, address by address.\<close>

definition graded :: "'a ndarray option list \<Rightarrow> 'a state \<Rightarrow> 'a state" where
  "graded gs st = st\<lparr>heap := map2 (\<lambda>t g. t\<lparr>grad := g\<rparr>) (heap st) gs\<rparr>"

section \<open>The store\<close>

lemma length_heap_modify [simp]: "length (heap (modify i f st)) = length (heap st)"
  by (simp add: modify_def)

lemma registry_modify [simp]: "registry (modify i f st) = registry st"
  by (simp add: modify_def)

lemma lookup_modify:
  "lookup (modify i f st) j = (if j = i then map_option f (lookup st i) else lookup st j)"
  by (auto simp: modify_def lookup_def)

lemma lookup_None_iff: "lookup st i = None \<longleftrightarrow> length (heap st) \<le> i"
  by (auto simp: lookup_def)

lemma lookup_Some_less: "lookup st i = Some t \<Longrightarrow> i < length (heap st)"
  by (auto simp: lookup_def split: if_splits)

lemma modify_last:
  "modify (length h) f \<lparr>heap = h @ [t], registry = r\<rparr> = \<lparr>heap = h @ [f t], registry = r\<rparr>"
  by (simp add: modify_def)

lemma requires_grad_of_snoc:
  "requires_grad_of \<lparr>heap = heap st @ [t], registry = r\<rparr> p
   = (requires_grad_of st p \<or> (p = length (heap st) \<and> requires_grad t))"
  by (auto simp: requires_grad_of_def lookup_def nth_append)

section \<open>Construction\<close>

lemma Tensor_init_eq:
  "Tensor_init d ty st =
     (length (heap st),
      \<lparr>heap = heap st @ [\<lparr>data = d, shape = nd_shape d, grad_fn = None, grad = None,
               children = [], parents = [], stale = False, extra = [], version = 0,
               tensor_type = ty, requires_grad = (ty = PARAMETER)\<rparr>],
       registry = (if length (heap st) \<in> set (registry st) then registry st
                   else registry st @ [length (heap st)])\<rparr>)"
  by (simp add: Tensor_init_def id_counter_def Let_def)

lemma lookup_link_children:
  "lookup (link_children node ps st) j = map_option (add_children ps node j) (lookup st j)"
  unfolding link_children_def
proof (induction ps arbitrary: st)
  case Nil
  then show ?case by (cases "lookup st j") (simp_all add: add_children_def)
next
  case (Cons p ps)
  show ?case
    by (cases "lookup st j")
       (auto simp: Cons.IH lookup_modify add_children_def replicate_app_Cons_same)
qed

lemma length_heap_link_children [simp]:
  "length (heap (link_children node ps st)) = length (heap st)"
  unfolding link_children_def by (induction ps arbitrary: st) simp_all

lemma registry_link_children [simp]: "registry (link_children node ps st) = registry st"
  unfolding link_children_def by (induction ps arbitrary: st) simp_all

lemma create_node_eq:
  "create_node d gfn ps ex st =
     (length (heap st),
      link_children (length (heap st)) ps
        \<lparr>heap = heap st @ [new_node d gfn ps ex st],
         registry = (if length (heap st) \<in> set (registry st) then registry st
                     else registry st @ [length (heap st)])\<rparr>)"
  by (simp add: create_node_def Tensor_init_eq modify_last requires_grad_of_snoc new_node_def)

lemma fst_create_node [simp]: "fst (create_node d gfn ps ex st) = length (heap st)"
  by (simp add: create_node_eq)

lemma length_heap_create_node [simp]:
  "length (heap (snd (create_node d gfn ps ex st))) = Suc (length (heap st))"
  by (simp add: create_node_eq)

lemma registry_create_node:
  "registry (snd (create_node d gfn ps ex st)) =
     (if length (heap st) \<in> set (registry st) then registry st else registry st @ [length (heap st)])"
  by (simp add: create_node_eq)

lemma lookup_create_node:
  "lookup (snd (create_node d gfn ps ex st)) j =
     (if j < length (heap st) then map_option (add_children ps (length (heap st)) j) (lookup st j)
      else if j = length (heap st)
      then Some (add_children ps j j (new_node d gfn ps ex st))
      else None)"
  by (simp add: create_node_eq lookup_link_children)
     (auto simp: lookup_def nth_append)

lemma data_of_create_node_new:
  "data_of (snd (create_node d gfn ps ex st)) (length (heap st)) = Some d"
  by (simp add: data_of_def lookup_create_node add_children_def new_node_def)

section \<open>The operators\<close>

lemma binary_op_scalar:
  "lookup st a = Some t \<Longrightarrow>
   binary_op f g1 g2 msg a (ScalarArg s) st =
     (Inr (length (heap st)),
      snd (create_node (nd_map (\<lambda>x. f x s) (data t)) (Some g2) [a] [(''scalar_value'', Number s)] st))"
  by (simp add: binary_op_def split_beta)

lemma one_leaf_eq:
  "one_leaf = \<lparr>heap = [\<lparr>data = vec [5], shape = [1], grad_fn = None, grad = None, children = [],
                         parents = [], stale = False, extra = [], version = 0,
                         tensor_type = PARAMETER, requires_grad = True\<rparr>],
               registry = [0]\<rparr>"
  by (simp add: one_leaf_def Tensor_init_eq initial_state_def vec_def)

section \<open>Slots that an operation keeps\<close>

lemma keeps_refl [simp]: "keeps sel st st"
  by (simp add: keeps_def)

lemma keeps_trans: "keeps sel st st' \<Longrightarrow> keeps sel st' st'' \<Longrightarrow> keeps sel st st''"
  by (auto simp: keeps_def)

lemma keeps_modify: "(\<And>t. sel (f t) = sel t) \<Longrightarrow> keeps sel st (modify i f st)"
  by (auto simp: keeps_def modify_def nth_list_update)

lemma keeps_registry_update [simp]: "keeps sel st (st\<lparr>registry := r\<rparr>)"
  by (simp add: keeps_def)

lemma keeps_foldl:
  "(\<And>x s. keeps sel s (f s x)) \<Longrightarrow> keeps sel st (foldl f st xs)"
proof (induction xs arbitrary: st)
  case Nil
  then show ?case by simp
next
  case (Cons x xs)
  then show ?case by (metis foldl_Cons keeps_trans)
qed

lemma keeps_for_each:
  "(\<And>x s. keeps sel s (snd (body x s))) \<Longrightarrow> keeps sel st (snd (for_each body xs st))"
proof (induction xs arbitrary: st)
  case Nil
  then show ?case by simp
next
  case (Cons x xs)
  have step: "keeps sel st (snd (body x st))" by (rule Cons.prems)
  show ?case
  proof (cases "body x st")
    case (Pair r st')
    with step have k: "keeps sel st st'" by simp
    show ?thesis
    proof (cases r)
      case None
      with Pair k Cons.IH [OF Cons.prems, of st'] show ?thesis
        by (auto intro: keeps_trans)
    next
      case (Some e)
      with Pair k show ?thesis by simp
    qed
  qed
qed

lemma keeps_link_children:
  "(\<And>t cs. sel (t\<lparr>children := cs\<rparr>) = sel t) \<Longrightarrow> keeps sel st (link_children node ps st)"
  unfolding link_children_def by (intro keeps_foldl keeps_modify) simp

lemma keeps_snoc: "keeps sel st \<lparr>heap = heap st @ [t], registry = r\<rparr>"
  by (simp add: keeps_def nth_append)

lemma keeps_create_node:
  "(\<And>t cs. sel (t\<lparr>children := cs\<rparr>) = sel t) \<Longrightarrow> keeps sel st (snd (create_node d gfn ps ex st))"
  by (simp add: create_node_eq) (blast intro: keeps_trans keeps_snoc keeps_link_children)

lemma keeps_Tensor_init: "keeps sel st (snd (Tensor_init d ty st))"
  by (simp add: Tensor_init_eq keeps_snoc)

lemma keeps_Tensor_T:
  "(\<And>t cs. sel (t\<lparr>children := cs\<rparr>) = sel t) \<Longrightarrow> (\<And>t b. sel (t\<lparr>stale := b\<rparr>) = sel t) \<Longrightarrow>
   keeps sel st (snd (Tensor_T a st))"
  by (auto simp: Tensor_T_def split_beta keeps_modify keeps_create_node split: option.splits)

lemma keeps_binary_op:
  "(\<And>t cs. sel (t\<lparr>children := cs\<rparr>) = sel t) \<Longrightarrow> keeps sel st (snd (binary_op f g1 g2 msg a other st))"
  by (auto simp: binary_op_def split_beta keeps_create_node split: option.splits operand.splits)

lemma keeps_Tensor_matmul:
  "(\<And>t cs. sel (t\<lparr>children := cs\<rparr>) = sel t) \<Longrightarrow> keeps sel st (snd (Tensor_matmul mm a other st))"
  by (auto simp: Tensor_matmul_def split_beta keeps_create_node split: option.splits operand.splits sum.splits)

lemma keeps_Tensor_neg:
  "(\<And>t cs. sel (t\<lparr>children := cs\<rparr>) = sel t) \<Longrightarrow> keeps sel st (snd (Tensor_neg a st))"
  by (auto simp: Tensor_neg_def split_beta keeps_create_node split: option.splits)

lemma keeps_Tensor_reshape:
  "(\<And>t cs. sel (t\<lparr>children := cs\<rparr>) = sel t) \<Longrightarrow> keeps sel st (snd (Tensor_reshape a ns st))"
  by (auto simp: Tensor_reshape_def split_beta keeps_create_node split: option.splits)

lemma keeps_remove_child:
  "(\<And>t cs. sel (t\<lparr>children := cs\<rparr>) = sel t) \<Longrightarrow> keeps sel st (snd (remove_child x p st))"
  by (simp add: remove_child_def keeps_modify)

lemma keeps_prune_parent:
  "(\<And>t ps. sel (t\<lparr>parents := ps\<rparr>) = sel t) \<Longrightarrow> keeps sel st (prune_parent x c st)"
  by (simp add: prune_parent_def keeps_modify)

lemma keeps_clear_one:
  assumes "\<And>t cs. sel (t\<lparr>children := cs\<rparr>) = sel t" and "\<And>t ps. sel (t\<lparr>parents := ps\<rparr>) = sel t"
  shows "keeps sel st (snd (clear_one x st))"
proof -
  let ?r = "for_each (remove_child x) (parents_of st x) st"
  have 1: "keeps sel st (snd ?r)"
    by (intro keeps_for_each keeps_remove_child assms)
  have 2: "keeps sel (snd ?r) (prune_all x (children_of (snd ?r) x) (snd ?r))"
    unfolding prune_all_def by (intro keeps_foldl keeps_prune_parent assms)
  from keeps_trans [OF 1 2] 1 show ?thesis
    by (auto simp: clear_one_def Let_def split: prod.splits option.splits intro: keeps_trans)
qed

lemma keeps_clear_stale_tensors:
  assumes "\<And>t cs. sel (t\<lparr>children := cs\<rparr>) = sel t" and "\<And>t ps. sel (t\<lparr>parents := ps\<rparr>) = sel t"
  shows "keeps sel st (snd (clear_stale_tensors st))"
  unfolding clear_stale_tensors_def by (intro keeps_for_each keeps_clear_one assms)

lemma keeps_set_grad:
  "(\<And>t g. sel (t\<lparr>grad := g\<rparr>) = sel t) \<Longrightarrow> keeps sel st (set_grad a v st)"
  by (simp add: set_grad_def keeps_modify)

lemma keeps_accumulate:
  "(\<And>t g. sel (t\<lparr>grad := g\<rparr>) = sel t) \<Longrightarrow> keeps sel st (snd (accumulate pg st))"
  by (auto simp: accumulate_def keeps_set_grad split: prod.splits option.splits sum.splits)

lemma process_node_cases:
  "snd (process_node gf keep self node st) = st
   \<or> (\<exists>xs. snd (process_node gf keep self node st) = snd (for_each accumulate xs st))
   \<or> (\<exists>xs. snd (process_node gf keep self node st)
             = modify node (\<lambda>t. t\<lparr>grad := None\<rparr>) (snd (for_each accumulate xs st)))"
proof (cases "lookup st node")
  case None
  then show ?thesis by (simp add: process_node_def)
next
  case (Some t)
  show ?thesis
  proof (cases "grad_fn t")
    case None
    with Some show ?thesis by (simp add: process_node_def)
  next
    case f: (Some f)
    show ?thesis
    proof (cases "grad t")
      case None
      with Some f show ?thesis by (simp add: process_node_def)
    next
      case g: (Some g)
      show ?thesis
      proof (cases "gf f st node g")
        case (Inl e)
        with Some f g show ?thesis by (simp add: process_node_def)
      next
        case (Inr gs)
        obtain r st' where acc: "for_each accumulate (zip (parents t) gs) st = (r, st')"
          by (cases "for_each accumulate (zip (parents t) gs) st")
        then have st': "st' = snd (for_each accumulate (zip (parents t) gs) st)" by simp
        show ?thesis
          using Some f g Inr acc
          by (cases r) (auto simp: process_node_def st' [symmetric] intro: exI [of _ "zip (parents t) gs"] simp: acc)
      qed
    qed
  qed
qed

lemma keeps_process_node:
  assumes "\<And>t g. sel (t\<lparr>grad := g\<rparr>) = sel t"
  shows "keeps sel st (snd (process_node gf keep self node st))"
proof -
  have acc: "keeps sel st (snd (for_each accumulate xs st))" for xs
    by (intro keeps_for_each keeps_accumulate assms)
  have clr: "keeps sel s (modify node (\<lambda>t. t\<lparr>grad := None\<rparr>) s)" for s
    by (intro keeps_modify assms)
  from process_node_cases [of gf keep self node st] show ?thesis
    using acc keeps_trans [OF acc clr] by auto
qed

lemma keeps_backward:
  assumes "\<And>t cs. sel (t\<lparr>children := cs\<rparr>) = sel t" and "\<And>t ps. sel (t\<lparr>parents := ps\<rparr>) = sel t"
    and "\<And>t g. sel (t\<lparr>grad := g\<rparr>) = sel t"
  shows "keeps sel st (snd (backward gf self gradient keep st))"
proof -
  have 1: "keeps sel st (snd (clear_stale_tensors st))"
    by (intro keeps_clear_stale_tensors assms)
  have 2: "keeps sel s (snd (for_each (process_node gf keep self) xs (set_grad self g s)))" for s xs g
    by (rule keeps_trans [OF keeps_set_grad keeps_for_each]) (intro assms keeps_process_node)+
  show ?thesis
    using 1 2
    by (auto simp: backward_def Let_def split: prod.splits option.splits intro: keeps_trans)
qed


lemma requires_grad_of_keeps:
  "keeps requires_grad st st' \<Longrightarrow> i < length (heap st) \<Longrightarrow> requires_grad_of st' i = requires_grad_of st i"
  by (auto simp: keeps_def requires_grad_of_def lookup_def)


section \<open>Operations that fail\<close>

lemma binary_op_mismatch:
  "lookup st a = Some t \<Longrightarrow> lookup st b = Some u \<Longrightarrow> shape t \<noteq> shape u \<Longrightarrow>
   binary_op f g1 g2 msg a (TensorArg b) st = (Inl (ValueError msg), st)"
  by (simp add: binary_op_def)

lemma binary_op_failure:
  "fst (binary_op f g1 g2 msg a other st) = Inl e \<Longrightarrow> snd (binary_op f g1 g2 msg a other st) = st"
  by (auto simp: binary_op_def split_beta split: option.splits operand.splits if_splits)

lemma Tensor_matmul_failure:
  "fst (Tensor_matmul mm a other st) = Inl e \<Longrightarrow> snd (Tensor_matmul mm a other st) = st"
  by (auto simp: Tensor_matmul_def split_beta split: option.splits operand.splits if_splits sum.splits)

lemma Tensor_reshape_failure:
  "fst (Tensor_reshape a ns st) = Inl e \<Longrightarrow> snd (Tensor_reshape a ns st) = st"
  by (auto simp: Tensor_reshape_def split_beta split: option.splits if_splits)

section \<open>The example graphs\<close>

lemma four_leaves_eq:
  "four_leaves =
     \<lparr>heap = [\<lparr>data = vec [1, 2, 3], shape = [3], grad_fn = None, grad = None, children = [],
               parents = [], stale = False, extra = [], version = 0,
               tensor_type = PARAMETER, requires_grad = True\<rparr>,
              \<lparr>data = mat 2 2 [1, 2, 3, 4], shape = [2, 2], grad_fn = None, grad = None, children = [],
               parents = [], stale = False, extra = [], version = 0,
               tensor_type = PARAMETER, requires_grad = True\<rparr>,
              \<lparr>data = mat 1 3 [1, 2, 3], shape = [1, 3], grad_fn = None, grad = None, children = [],
               parents = [], stale = False, extra = [], version = 0,
               tensor_type = INPUT, requires_grad = False\<rparr>,
              \<lparr>data = vec [5], shape = [1], grad_fn = None, grad = None, children = [],
               parents = [], stale = False, extra = [], version = 0,
               tensor_type = PARAMETER, requires_grad = True\<rparr>],
      registry = [0, 1, 2, 3]\<rparr>"
  by (simp add: four_leaves_def Tensor_init_eq initial_state_def vec_def mat_def)

lemma empty_leaf_eq:
  "empty_leaf =
     \<lparr>heap = [\<lparr>data = vec [], shape = [0], grad_fn = None, grad = None, children = [],
               parents = [], stale = False, extra = [], version = 0,
               tensor_type = PARAMETER, requires_grad = True\<rparr>],
      registry = [0]\<rparr>"
  by (simp add: empty_leaf_def Tensor_init_eq initial_state_def vec_def)

lemma clear_stale_tensors_four_leaves: "clear_stale_tensors four_leaves = (None, four_leaves)"
  by (simp add: clear_stale_tensors_def clear_one_def stale_of_def lookup_def four_leaves_eq)

lemma clear_stale_tensors_empty_leaf: "clear_stale_tensors empty_leaf = (None, empty_leaf)"
  by (simp add: clear_stale_tensors_def clear_one_def stale_of_def lookup_def empty_leaf_eq)

lemma clear_stale_tensors_one_leaf: "clear_stale_tensors one_leaf = (None, one_leaf)"
  by (simp add: clear_stale_tensors_def clear_one_def stale_of_def lookup_def one_leaf_eq)

section \<open>Simple cases of the backward pass\<close>

lemma topo_order_of_leaf:
  "requires_grad_of st n \<Longrightarrow> parents_of st n = [] \<Longrightarrow> topo_order_of st n = [n]"
  by (simp add: topo_order_of_def)

lemma process_node_no_grad_fn:
  "lookup st n = Some t \<Longrightarrow> grad_fn t = None \<Longrightarrow> process_node gf k self n st = (None, st)"
  by (simp add: process_node_def)

lemma diamond_eq:
  "diamond =
   \<lparr>heap =
    [\<lparr>data = vec [1], shape = [1], grad_fn = None,
        grad = None, children = [2, 3], parents = [], stale = False,
        extra = [], version = 0, tensor_type = PARAMETER,
        requires_grad = True\<rparr>,
     \<lparr>data = vec [4], shape = [1], grad_fn = None,
        grad = None, children = [3], parents = [], stale = False,
        extra = [], version = 0, tensor_type = INPUT,
        requires_grad = False\<rparr>,
     \<lparr>data = vec [2], shape = [1],
        grad_fn = Some mul_scalar_backward, grad = None, children = [4],
        parents = [0], stale = False,
        extra = [(''scalar_value'', Number 2)], version = 0,
        tensor_type = INTERMEDIATE, requires_grad = True\<rparr>,
     \<lparr>data = vec [4], shape = [1],
        grad_fn = Some mul_backward, grad = None, children = [4],
        parents = [0, 1], stale = False, extra = [], version = 0,
        tensor_type = INTERMEDIATE, requires_grad = True\<rparr>,
     \<lparr>data = vec [6], shape = [1],
        grad_fn = Some add_backward, grad = None, children = [],
        parents = [2, 3], stale = False, extra = [], version = 0,
        tensor_type = INTERMEDIATE, requires_grad = True\<rparr>],
    registry = [0, 1, 2, 3, 4]\<rparr>"
  by (simp add: diamond_def Tensor_add_def Tensor_mul_def binary_op_def create_node_eq
      Tensor_init_eq initial_state_def lookup_def link_children_def modify_def new_node_def
      requires_grad_of_def vec_def nd_zip_def nd_map_def)

lemma topo_order_of_diamond: "topo_order_of diamond 4 = [0, 2, 3, 4]"
  by (simp add: topo_order_of_def diamond_eq requires_grad_of_def parents_of_def lookup_def)

section \<open>The topological order\<close>

lemma parents_older_nth:
  assumes "parents_older st" and "i < length (heap st)" and "p \<in> set (parents (heap st ! i))"
  shows "p < i"
proof -
  from assms(2) have "(i, heap st ! i) \<in> set (enumerate 0 (heap st))"
    by (simp add: in_set_enumerate_eq)
  with assms(1,3) show ?thesis
    unfolding parents_older_def by fastforce
qed

lemma parents_older_less:
  "parents_older st \<Longrightarrow> p \<in> set (parents_of st n) \<Longrightarrow> p < n"
  by (auto simp: parents_of_def lookup_def split: if_splits dest: parents_older_nth)

lemma grad_path_requires_grad: "grad_path st n m \<Longrightarrow> requires_grad_of st m"
  by (induction rule: grad_path.induct) auto

lemma parents_first_Nil [simp]: "parents_first st []"
  by (simp add: parents_first_def)

lemma parents_first_snoc:
  assumes "parents_first st order"
    and "\<And>p. p \<in> set (parents_of st n) \<Longrightarrow> requires_grad_of st p \<Longrightarrow> p \<in> set order"
  shows "parents_first st (order @ [n])"
  unfolding parents_first_def
proof (intro allI impI ballI)
  fix i p
  assume i: "i < length (order @ [n])"
    and p: "p \<in> set (parents_of st ((order @ [n]) ! i))" and rg: "requires_grad_of st p"
  show "p \<in> set (take i (order @ [n]))"
  proof (cases "i < length order")
    case True
    with assms(1) p rg show ?thesis
      by (auto simp: parents_first_def nth_append)
  next
    case False
    with i have "i = length order" by simp
    with p rg assms(2) show ?thesis by (simp add: nth_append)
  qed
qed

lemma build_topo_spec:
  assumes po: "parents_older st"
  shows "(\<forall>s \<in> fst acc - set (snd acc). n < s) \<Longrightarrow> parents_first st (snd acc) \<Longrightarrow>
         \<exists>new. build_topo st n acc = (fst acc \<union> set new, snd acc @ new) \<and> distinct new
              \<and> set new \<inter> fst acc = {} \<and> (\<forall>m \<in> set new. grad_path st n m)
              \<and> parents_first st (snd acc @ new)
              \<and> (requires_grad_of st n \<longrightarrow> n \<in> fst acc \<union> set new)"
    and "(\<forall>p \<in> set ps. \<forall>s \<in> fst acc - set (snd acc). p < s) \<Longrightarrow> parents_first st (snd acc) \<Longrightarrow>
         \<exists>new. build_topo_parents st ps acc = (fst acc \<union> set new, snd acc @ new) \<and> distinct new
              \<and> set new \<inter> fst acc = {} \<and> (\<forall>m \<in> set new. \<exists>p \<in> set ps. grad_path st p m)
              \<and> parents_first st (snd acc @ new)
              \<and> (\<forall>p \<in> set ps. requires_grad_of st p \<longrightarrow> p \<in> fst acc \<union> set new)"
  using po
proof (induction st n acc and st ps acc rule: build_topo_build_topo_parents.induct)
  case (1 st node visited topo_order)
  show ?case
  proof (cases "node \<in> visited \<or> \<not> requires_grad_of st node")
    case True
    then have "build_topo st node (visited, topo_order) = (visited \<union> set [], topo_order @ [])"
      by auto
    with True "1.prems" show ?thesis
      by (intro exI [of _ "[]"]) auto
  next
    case False
    then have nv: "node \<notin> visited" and rg: "requires_grad_of st node" by auto
    have pre: "\<forall>p \<in> set (parents_of st node).
                 \<forall>s \<in> fst (insert node visited, topo_order) - set (snd (insert node visited, topo_order)). p < s"
    proof (intro ballI)
      fix p s
      assume p: "p \<in> set (parents_of st node)"
        and s: "s \<in> fst (insert node visited, topo_order) - set (snd (insert node visited, topo_order))"
      from p "1.prems"(3) have "p < node" by (rule parents_older_less [rotated])
      moreover from s "1.prems"(1) have "s = node \<or> node < s" by auto
      ultimately show "p < s" by auto
    qed
    from "1.IH" [OF False pre] "1.prems"(2,3)
    obtain new where
      b: "build_topo_parents st (parents_of st node) (insert node visited, topo_order)
            = (insert node visited \<union> set new, topo_order @ new)"
      and d: "distinct new" and i: "set new \<inter> insert node visited = {}"
      and g: "\<forall>m \<in> set new. \<exists>p \<in> set (parents_of st node). grad_path st p m"
      and f: "parents_first st (topo_order @ new)"
      and c: "\<forall>p \<in> set (parents_of st node). requires_grad_of st p \<longrightarrow> p \<in> insert node visited \<union> set new"
      by auto
    have res: "build_topo st node (visited, topo_order) = (visited \<union> set (new @ [node]), topo_order @ (new @ [node]))"
      using False b by auto
    have inorder: "p \<in> set (topo_order @ new)"
      if p: "p \<in> set (parents_of st node)" and prg: "requires_grad_of st p" for p
    proof -
      from p "1.prems"(3) have lt: "p < node" by (rule parents_older_less [rotated])
      from c p prg have "p \<in> insert node visited \<union> set new" by blast
      with lt have "p \<in> visited \<or> p \<in> set new" by auto
      moreover have "p \<in> set topo_order" if "p \<in> visited"
      proof (rule ccontr)
        assume "p \<notin> set topo_order"
        with that "1.prems"(1) have "node < p" by auto
        with lt show False by simp
      qed
      ultimately show ?thesis by auto
    qed
    have f': "parents_first st (topo_order @ (new @ [node]))"
      using parents_first_snoc [OF f inorder] by simp
    have g': "\<forall>m \<in> set (new @ [node]). grad_path st node m"
      using g rg by (auto intro: grad_path.intros)
    show ?thesis
      using res d i nv f' g'
      by (intro exI [of _ "new @ [node]"]) auto
  qed
next
  case (2 st acc)
  then show ?case by (intro exI [of _ "[]"]) simp
next
  case (3 st parent rest acc)
  from "3.prems" have pre1: "\<forall>s \<in> fst acc - set (snd acc). parent < s" by auto
  from "3.IH"(1) [OF pre1 "3.prems"(2,3)]
  obtain new1 where
    b1: "build_topo st parent acc = (fst acc \<union> set new1, snd acc @ new1)"
    and d1: "distinct new1" and i1: "set new1 \<inter> fst acc = {}"
    and g1: "\<forall>m \<in> set new1. grad_path st parent m"
    and f1: "parents_first st (snd acc @ new1)"
    and c1: "requires_grad_of st parent \<longrightarrow> parent \<in> fst acc \<union> set new1"
    by auto
  let ?acc1 = "build_topo st parent acc"
  have pre2: "\<forall>p \<in> set rest. \<forall>s \<in> fst ?acc1 - set (snd ?acc1). p < s"
    using "3.prems"(1) by (auto simp: b1)
  have f1': "parents_first st (snd ?acc1)" using f1 by (simp add: b1)
  from "3.IH"(2) [OF pre2 f1' "3.prems"(3)]
  obtain new2 where
    b2: "build_topo_parents st rest ?acc1 = (fst ?acc1 \<union> set new2, snd ?acc1 @ new2)"
    and d2: "distinct new2" and i2: "set new2 \<inter> fst ?acc1 = {}"
    and g2: "\<forall>m \<in> set new2. \<exists>p \<in> set rest. grad_path st p m"
    and f2: "parents_first st (snd ?acc1 @ new2)"
    and c2: "\<forall>p \<in> set rest. requires_grad_of st p \<longrightarrow> p \<in> fst ?acc1 \<union> set new2"
    by auto
  have res: "build_topo_parents st (parent # rest) acc
               = (fst acc \<union> set (new1 @ new2), snd acc @ (new1 @ new2))"
    using b2 by (simp add: b1 Un_assoc)
  have "distinct (new1 @ new2)" using d1 d2 i2 by (auto simp: b1)
  moreover have "set (new1 @ new2) \<inter> fst acc = {}" using i1 i2 by (auto simp: b1)
  moreover have "\<forall>m \<in> set (new1 @ new2). \<exists>p \<in> set (parent # rest). grad_path st p m"
    using g1 g2 by auto
  moreover have "parents_first st (snd acc @ (new1 @ new2))" using f2 by (simp add: b1)
  moreover have "\<forall>p \<in> set (parent # rest). requires_grad_of st p \<longrightarrow> p \<in> fst acc \<union> set (new1 @ new2)"
    using c1 c2 by (auto simp: b1)
  ultimately show ?case
    using res by (intro exI [of _ "new1 @ new2"]) blast
qed

section \<open>One step of the reclaimer\<close>

lemma lookup_valid: "i < length (heap st) \<Longrightarrow> lookup st i = Some (heap st ! i)"
  by (simp add: lookup_def)

lemma heap_modify_nth:
  "i < length (heap st) \<Longrightarrow>
   heap (modify j f st) ! i = (if i = j then f (heap st ! i) else heap st ! i)"
  by (auto simp: modify_def)


lemma length_heap_prune_all [simp]: "length (heap (prune_all x cs st)) = length (heap st)"
  unfolding prune_all_def by (induction cs arbitrary: st) (simp_all add: prune_parent_def)

lemma registry_prune_all [simp]: "registry (prune_all x cs st) = registry st"
  unfolding prune_all_def by (induction cs arbitrary: st) (simp_all add: prune_parent_def)

lemma heap_prune_all_nth:
  "u < length (heap st) \<Longrightarrow>
   heap (prune_all x cs st) ! u =
     (if u \<in> set cs then (heap st ! u)\<lparr>parents := filter (\<lambda>p. p \<noteq> x) (parents (heap st ! u))\<rparr>
      else heap st ! u)"
proof (induction cs arbitrary: st)
  case Nil
  then show ?case by (simp add: prune_all_def)
next
  case (Cons c cs)
  have "prune_all x (c # cs) st = prune_all x cs (prune_parent x c st)"
    by (simp add: prune_all_def)
  moreover have "u < length (heap (prune_parent x c st))"
    using Cons.prems by (simp add: prune_parent_def)
  ultimately show ?case
    using Cons.IH [of "prune_parent x c st"] Cons.prems
    by (auto simp: prune_parent_def heap_modify_nth)
qed


lemma clear_one_not_stale: "\<not> stale_of st s \<Longrightarrow> clear_one s st = (None, st)"
  by (simp add: clear_one_def)

lemma clear_one_single_parent:
  assumes "stale_of st s" and "parents_of st s = [p]" and "s \<in> set (children_of st p)"
    and "s \<in> set (registry st)"
  shows "clear_one s st =
     (None, (prune_all s (children_of (modify p (\<lambda>t. t\<lparr>children := remove1 s (children t)\<rparr>) st) s)
               (modify p (\<lambda>t. t\<lparr>children := remove1 s (children t)\<rparr>) st))
            \<lparr>registry := removeAll s (registry st)\<rparr>)"
  using assms by (simp add: clear_one_def remove_child_def Let_def)



lemma remove1_single_occurrence:
  "count_list xs x = Suc 0 \<Longrightarrow> remove1 x xs = filter (\<lambda>y. y \<noteq> x) xs"
proof (induction xs)
  case Nil
  then show ?case by simp
next
  case (Cons a xs)
  show ?case
  proof (cases "a = x")
    case True
    with Cons.prems have "x \<notin> set xs" by (simp add: count_list_0_iff)
    then have "filter (\<lambda>y. y \<noteq> x) xs = xs" by (auto simp: filter_id_conv)
    with True show ?thesis by simp
  next
    case False
    with Cons show ?thesis by simp
  qed
qed


lemma well_formedD:
  assumes "well_formed st"
  shows "refs_valid st" "distinct (registry st)" "transposes_ok st" "links_agree st"
    "live_registered st" "parents_older st"
  using assms by (simp_all add: well_formed_def)

lemma registry_valid: "refs_valid st \<Longrightarrow> i \<in> set (registry st) \<Longrightarrow> i < length (heap st)"
  by (simp add: refs_valid_def)

lemma stale_is_transpose:
  "transposes_ok st \<Longrightarrow> i < length (heap st) \<Longrightarrow> stale (heap st ! i)
   \<Longrightarrow> grad_fn (heap st ! i) = Some transpose_backward"
  by (simp add: transposes_ok_def)

lemma transpose_parent:
  assumes "transposes_ok st" and "i < length (heap st)"
    and "grad_fn (heap st ! i) = Some transpose_backward"
  obtains p where "parents (heap st ! i) = [p]" and "grad_fn_of st p \<noteq> Some transpose_backward"
proof -
  from assms have "case parents (heap st ! i) of
              [p] \<Rightarrow> grad_fn_of st p \<noteq> Some transpose_backward | _ \<Rightarrow> False"
    by (simp add: transposes_ok_def)
  then show thesis
    by (auto split: list.splits intro: that)
qed

lemma unregistered_is_stale:
  assumes "live_registered st" and "i < length (heap st)" and "i \<notin> set (registry st)"
  shows "stale (heap st ! i)"
proof -
  from assms(2) have "(i, heap st ! i) \<in> set (enumerate 0 (heap st))"
    by (simp add: in_set_enumerate_eq)
  with assms(1,3) show ?thesis
    unfolding live_registered_def by fastforce
qed

lemma links_agreeD:
  "links_agree st \<Longrightarrow> c \<in> set (registry st) \<Longrightarrow> p \<in> set (registry st)
   \<Longrightarrow> count_list (parents_of st c) p = count_list (children_of st p) c"
  by (simp add: links_agree_def)

lemma stale_not_parent:
  assumes wf: "well_formed st" and u: "u < length (heap st)"
    and s: "s < length (heap st)" "stale (heap st ! s)" "s \<in> set (registry st)"
    and nc: "u \<notin> set (children (heap st ! s))"
  shows "s \<notin> set (parents (heap st ! u))"
proof
  assume in_p: "s \<in> set (parents (heap st ! u))"
  note w = well_formedD [OF wf]
  show False
  proof (cases "u \<in> set (registry st)")
    case True
    from links_agreeD [OF w(4) True s(3)] u s(1)
    have "count_list (parents (heap st ! u)) s = count_list (children (heap st ! s)) u"
      by (simp add: parents_of_def children_of_def lookup_valid)
    with nc in_p show False by (simp add: count_list_0_iff)
  next
    case False
    from unregistered_is_stale [OF w(5) u False]
    have "grad_fn (heap st ! u) = Some transpose_backward"
      by (rule stale_is_transpose [OF w(3) u])
    from transpose_parent [OF w(3) u this]
    obtain q where q: "parents (heap st ! u) = [q]" "grad_fn_of st q \<noteq> Some transpose_backward" .
    with in_p have "q = s" by simp
    moreover from stale_is_transpose [OF w(3) s(1,2)] s(1)
    have "grad_fn_of st s = Some transpose_backward"
      by (simp add: grad_fn_of_def lookup_valid)
    ultimately show False using q(2) by simp
  qed
qed

lemma clear_one_reclaims:
  assumes wf: "well_formed st" and reg: "s \<in> set (registry st)" and st: "stale_of st s"
  shows "\<exists>st'. clear_one s st = (None, st') \<and> reclaimed {s} st st'"
proof -
  note w = well_formedD [OF wf]
  from registry_valid [OF w(1) reg] have s: "s < length (heap st)" .
  from st s have stale: "stale (heap st ! s)" by (simp add: stale_of_def lookup_valid)
  from stale_is_transpose [OF w(3) s stale] have tr: "grad_fn (heap st ! s) = Some transpose_backward" .
  from transpose_parent [OF w(3) s tr]
  obtain p where p: "parents (heap st ! s) = [p]" and pg: "grad_fn_of st p \<noteq> Some transpose_backward" .
  from p s have ps: "parents_of st s = [p]" by (simp add: parents_of_def lookup_valid)
  from parents_older_less [OF w(6), of p s] ps have lt: "p < s" by simp
  with s have pv: "p < length (heap st)" by simp
  have pns: "\<not> stale (heap st ! p)"
  proof
    assume "stale (heap st ! p)"
    from stale_is_transpose [OF w(3) pv this] pv pg show False
      by (simp add: grad_fn_of_def lookup_valid)
  qed
  have preg: "p \<in> set (registry st)"
    using unregistered_is_stale [OF w(5) pv] pns by blast
  from links_agreeD [OF w(4) reg preg] ps pv
  have cnt: "count_list (children (heap st ! p)) s = Suc 0"
    by (simp add: children_of_def lookup_valid)
  then have in_c: "s \<in> set (children (heap st ! p))"
    by (metis count_list_0_iff nat.distinct(1))
  let ?st1 = "modify p (\<lambda>t. t\<lparr>children := remove1 s (children t)\<rparr>) st"
  let ?cs = "children (heap st ! s)"
  let ?st' = "(prune_all s ?cs ?st1)\<lparr>registry := removeAll s (registry st)\<rparr>"
  have cs: "children_of ?st1 s = ?cs"
    using s lt by (simp add: children_of_def lookup_modify lookup_valid)
  from in_c pv have in_c': "s \<in> set (children_of st p)"
    by (simp add: children_of_def lookup_valid)
  have run: "clear_one s st = (None, ?st')"
    using clear_one_single_parent [OF st ps in_c' reg] by (simp only: cs)
  have nth: "heap (prune_all s ?cs ?st1) ! u =
      (let t = (if u = p then (heap st ! u)\<lparr>children := remove1 s (children (heap st ! u))\<rparr>
                else heap st ! u)
       in if u \<in> set ?cs then t\<lparr>parents := filter (\<lambda>q. q \<noteq> s) (parents t)\<rparr> else t)"
    if "u < length (heap st)" for u
    using that by (simp add: heap_prune_all_nth heap_modify_nth Let_def)
  have "reclaimed {s} st ?st'"
    unfolding reclaimed_def
  proof (intro conjI allI impI)
    show "length (heap ?st') = length (heap st)" by simp
    show "registry ?st' = filter (\<lambda>i. i \<notin> {s}) (registry st)"
      by (simp add: removeAll_filter_not_eq) (metis)
  next
    fix u assume u: "u < length (heap st)"
    show "same_but_links (heap st ! u) (heap ?st' ! u)"
      by (simp add: nth [OF u] same_but_links_def Let_def)
    show "parents (heap ?st' ! u) = filter (\<lambda>p. p \<notin> {s}) (parents (heap st ! u))"
    proof (cases "u \<in> set ?cs")
      case True
      then show ?thesis by (simp add: nth [OF u] Let_def)
    next
      case False
      from stale_not_parent [OF wf u s stale reg False]
      have "filter (\<lambda>q. q \<noteq> s) (parents (heap st ! u)) = parents (heap st ! u)"
        by (auto simp: filter_id_conv)
      with False show ?thesis by (simp add: nth [OF u] Let_def)
    qed
    show "set (children (heap ?st' ! u)) \<subseteq> set (children (heap st ! u))"
      using set_remove1_subset [of s "children (heap st ! u)"]
      by (auto simp: nth [OF u] Let_def)
    show "children (heap ?st' ! u) = filter (\<lambda>c. c \<notin> {s}) (children (heap st ! u))"
      if "u \<in> set (registry ?st')"
    proof (cases "u = p")
      case True
      with cnt show ?thesis
        by (simp add: nth [OF pv] Let_def remove1_single_occurrence)
    next
      case False
      from that have ureg: "u \<in> set (registry st)" by simp
      from links_agreeD [OF w(4) reg ureg] ps u False
      have "count_list (children (heap st ! u)) s = 0"
        by (simp add: children_of_def lookup_valid)
      then have "filter (\<lambda>c. c \<noteq> s) (children (heap st ! u)) = children (heap st ! u)"
        by (auto simp: filter_id_conv count_list_0_iff)
      with False show ?thesis by (simp add: nth [OF u] Let_def)
    qed
  qed
  with run show ?thesis by blast
qed

section \<open>Well-formed graphs and reclaimed graphs\<close>

lemma parents_older_iff:
  "parents_older st \<longleftrightarrow> (\<forall>i < length (heap st). \<forall>p \<in> set (parents (heap st ! i)). p < i)"
proof
  assume "parents_older st"
  then show "\<forall>i < length (heap st). \<forall>p \<in> set (parents (heap st ! i)). p < i"
    by (blast dest: parents_older_nth)
next
  assume "\<forall>i < length (heap st). \<forall>p \<in> set (parents (heap st ! i)). p < i"
  then show "parents_older st"
    by (auto simp: parents_older_def in_set_enumerate_eq)
qed

lemma live_registered_iff:
  "live_registered st \<longleftrightarrow> (\<forall>i < length (heap st). \<not> stale (heap st ! i) \<longrightarrow> i \<in> set (registry st))"
proof
  assume "live_registered st"
  then show "\<forall>i < length (heap st). \<not> stale (heap st ! i) \<longrightarrow> i \<in> set (registry st)"
    by (blast dest: unregistered_is_stale)
next
  assume "\<forall>i < length (heap st). \<not> stale (heap st ! i) \<longrightarrow> i \<in> set (registry st)"
  then show "live_registered st"
    by (auto simp: live_registered_def in_set_enumerate_eq)
qed

lemma refs_valid_iff:
  "refs_valid st \<longleftrightarrow>
     (\<forall>i < length (heap st).
        (\<forall>p \<in> set (parents (heap st ! i)). p < length (heap st)) \<and>
        (\<forall>c \<in> set (children (heap st ! i)). c < length (heap st))) \<and>
     (\<forall>i \<in> set (registry st). i < length (heap st))"
  by (simp add: refs_valid_def all_set_conv_all_nth)

lemma transposes_ok_iff:
  "transposes_ok st \<longleftrightarrow>
     (\<forall>i < length (heap st).
        (stale (heap st ! i) \<longrightarrow> grad_fn (heap st ! i) = Some transpose_backward) \<and>
        (grad_fn (heap st ! i) = Some transpose_backward \<longrightarrow>
           (\<exists>p. parents (heap st ! i) = [p] \<and> grad_fn_of st p \<noteq> Some transpose_backward)))"
  unfolding transposes_ok_def all_set_conv_all_nth
  by (intro all_cong1 imp_cong refl conj_cong) (auto split: list.splits)

lemma count_list_filter:
  "count_list (filter P xs) x = (if P x then count_list xs x else 0)"
  by (induction xs) auto

lemma same_but_links_refl [simp]: "same_but_links t t"
  by (simp add: same_but_links_def)

lemma same_but_links_trans:
  "same_but_links t t' \<Longrightarrow> same_but_links t' t'' \<Longrightarrow> same_but_links t t''"
  by (simp add: same_but_links_def)

lemma same_but_links_fields:
  assumes "same_but_links t t'"
  shows "stale t' = stale t" "grad_fn t' = grad_fn t" "grad t' = grad t" "data t' = data t"
    "shape t' = shape t" "extra t' = extra t" "version t' = version t"
    "tensor_type t' = tensor_type t" "requires_grad t' = requires_grad t"
proof -
  from assms have e: "t'\<lparr>parents := [], children := []\<rparr> = t\<lparr>parents := [], children := []\<rparr>"
    by (simp add: same_but_links_def)
  from arg_cong [OF e, of stale] show "stale t' = stale t" by simp
  from arg_cong [OF e, of grad_fn] show "grad_fn t' = grad_fn t" by simp
  from arg_cong [OF e, of grad] show "grad t' = grad t" by simp
  from arg_cong [OF e, of data] show "data t' = data t" by simp
  from arg_cong [OF e, of shape] show "shape t' = shape t" by simp
  from arg_cong [OF e, of extra] show "extra t' = extra t" by simp
  from arg_cong [OF e, of version] show "version t' = version t" by simp
  from arg_cong [OF e, of tensor_type] show "tensor_type t' = tensor_type t" by simp
  from arg_cong [OF e, of requires_grad] show "requires_grad t' = requires_grad t" by simp
qed

lemma reclaimed_refl [simp]: "reclaimed {} st st"
  by (simp add: reclaimed_def)

lemma reclaimedD:
  assumes "reclaimed D st st'"
  shows "length (heap st') = length (heap st)"
    and "registry st' = filter (\<lambda>i. i \<notin> D) (registry st)"
    and "u < length (heap st) \<Longrightarrow> same_but_links (heap st ! u) (heap st' ! u)"
    and "u < length (heap st) \<Longrightarrow>
         parents (heap st' ! u) = filter (\<lambda>p. p \<notin> D) (parents (heap st ! u))"
    and "u < length (heap st) \<Longrightarrow> set (children (heap st' ! u)) \<subseteq> set (children (heap st ! u))"
    and "u < length (heap st) \<Longrightarrow> u \<in> set (registry st') \<Longrightarrow>
         children (heap st' ! u) = filter (\<lambda>c. c \<notin> D) (children (heap st ! u))"
  using assms unfolding reclaimed_def by blast+

lemma reclaimed_trans:
  assumes 1: "reclaimed D1 st st1" and 2: "reclaimed D2 st1 st2"
  shows "reclaimed (D1 \<union> D2) st st2"
  unfolding reclaimed_def
proof (intro conjI allI impI)
  note a = reclaimedD [OF 1] and b = reclaimedD [OF 2]
  show "length (heap st2) = length (heap st)" by (simp add: a(1) b(1))
  show "registry st2 = filter (\<lambda>i. i \<notin> D1 \<union> D2) (registry st)"
    by (simp add: a(2) b(2) conj_commute)
  fix u assume u: "u < length (heap st)"
  then have u1: "u < length (heap st1)" by (simp add: a(1))
  show "same_but_links (heap st ! u) (heap st2 ! u)"
    by (rule same_but_links_trans [OF a(3) [OF u] b(3) [OF u1]])
  show "parents (heap st2 ! u) = filter (\<lambda>p. p \<notin> D1 \<union> D2) (parents (heap st ! u))"
    by (simp add: a(4) [OF u] b(4) [OF u1] conj_commute)
  from a(5) [OF u] b(5) [OF u1]
  show "set (children (heap st2 ! u)) \<subseteq> set (children (heap st ! u))" by blast
  show "children (heap st2 ! u) = filter (\<lambda>c. c \<notin> D1 \<union> D2) (children (heap st ! u))"
    if r: "u \<in> set (registry st2)"
  proof -
    from r have r1: "u \<in> set (registry st1)" by (simp add: b(2))
    show ?thesis
      by (simp add: a(6) [OF u r1] b(6) [OF u1 r] conj_commute)
  qed
qed

lemma reclaimed_stale:
  "reclaimed D st st' \<Longrightarrow> u < length (heap st) \<Longrightarrow> stale (heap st' ! u) = stale (heap st ! u)"
  by (rule same_but_links_fields(1) [OF reclaimedD(3)])

lemma reclaimed_grad_fn:
  "reclaimed D st st' \<Longrightarrow> u < length (heap st) \<Longrightarrow> grad_fn (heap st' ! u) = grad_fn (heap st ! u)"
  by (rule same_but_links_fields(2) [OF reclaimedD(3)])

lemma reclaimed_grad_fn_of:
  assumes "reclaimed D st st'"
  shows "grad_fn_of st' p = grad_fn_of st p"
proof (cases "p < length (heap st)")
  case True
  with reclaimedD(1) [OF assms] reclaimed_grad_fn [OF assms True] show ?thesis
    by (simp add: grad_fn_of_def lookup_def)
next
  case False
  with reclaimedD(1) [OF assms] show ?thesis
    by (simp add: grad_fn_of_def lookup_def)
qed

lemma refs_validD:
  assumes "refs_valid st"
  shows "i < length (heap st) \<Longrightarrow> p \<in> set (parents (heap st ! i)) \<Longrightarrow> p < length (heap st)"
    and "i < length (heap st) \<Longrightarrow> c \<in> set (children (heap st ! i)) \<Longrightarrow> c < length (heap st)"
  using assms unfolding refs_valid_iff by blast+

lemma reclaimed_refs_valid:
  assumes w: "refs_valid st" and r: "reclaimed D st st'"
  shows "refs_valid st'"
  unfolding refs_valid_iff reclaimedD(1) [OF r]
proof (intro conjI allI impI ballI)
  fix i p assume i: "i < length (heap st)" and "p \<in> set (parents (heap st' ! i))"
  then have "p \<in> set (parents (heap st ! i))" by (simp add: reclaimedD(4) [OF r i])
  with w i show "p < length (heap st)" by (rule refs_validD(1))
next
  fix i c assume i: "i < length (heap st)" and "c \<in> set (children (heap st' ! i))"
  with reclaimedD(5) [OF r i] have "c \<in> set (children (heap st ! i))" by blast
  with w i show "c < length (heap st)" by (rule refs_validD(2))
next
  fix i assume "i \<in> set (registry st')"
  then have "i \<in> set (registry st)" by (simp add: reclaimedD(2) [OF r])
  with w show "i < length (heap st)" by (rule registry_valid)
qed

lemma reclaimed_transposes_ok:
  assumes w: "transposes_ok st" and r: "reclaimed D st st'"
    and D: "\<And>s. s \<in> D \<Longrightarrow> stale_of st s"
  shows "transposes_ok st'"
  unfolding transposes_ok_iff reclaimedD(1) [OF r]
proof (intro allI impI conjI)
  have Dtr: "grad_fn_of st s = Some transpose_backward" if "s \<in> D" for s
  proof -
    from D [OF that] have "s < length (heap st)" "stale (heap st ! s)"
      by (auto simp: stale_of_def lookup_def split: if_splits)
    with stale_is_transpose [OF w] show ?thesis
      by (simp add: grad_fn_of_def lookup_valid)
  qed
  fix i assume i: "i < length (heap st)"
  show "grad_fn (heap st' ! i) = Some transpose_backward" if "stale (heap st' ! i)"
    using that stale_is_transpose [OF w i]
    by (simp add: reclaimed_stale [OF r i] reclaimed_grad_fn [OF r i])
  show "\<exists>p. parents (heap st' ! i) = [p] \<and> grad_fn_of st' p \<noteq> Some transpose_backward"
    if "grad_fn (heap st' ! i) = Some transpose_backward"
  proof -
    from that have "grad_fn (heap st ! i) = Some transpose_backward"
      by (simp add: reclaimed_grad_fn [OF r i])
    from transpose_parent [OF w i this]
    obtain p where p: "parents (heap st ! i) = [p]" "grad_fn_of st p \<noteq> Some transpose_backward" .
    with Dtr have "p \<notin> D" by blast
    with p show ?thesis by (simp add: reclaimedD(4) [OF r i] reclaimed_grad_fn_of [OF r])
  qed
qed

lemma reclaimed_links_agree:
  assumes w: "links_agree st" and v: "refs_valid st" and r: "reclaimed D st st'"
  shows "links_agree st'"
  unfolding links_agree_def
proof (intro ballI)
  note len = reclaimedD(1) [OF r] and reg = reclaimedD(2) [OF r]
  fix c p assume c: "c \<in> set (registry st')" and p: "p \<in> set (registry st')"
  then have c0: "c \<in> set (registry st)" "c \<notin> D" and p0: "p \<in> set (registry st)" "p \<notin> D"
    by (simp_all add: reg)
  from registry_valid [OF v] c0 p0 have cv: "c < length (heap st)" and pv: "p < length (heap st)"
    by simp_all
  have "count_list (parents_of st' c) p = count_list (parents_of st c) p"
    using cv p0 by (simp add: parents_of_def lookup_def len reclaimedD(4) [OF r cv] count_list_filter)
  moreover have "count_list (children_of st' p) c = count_list (children_of st p) c"
    using pv c0 reclaimedD(6) [OF r pv p] by (simp add: children_of_def lookup_def len count_list_filter)
  ultimately show "count_list (parents_of st' c) p = count_list (children_of st' p) c"
    using links_agreeD [OF w c0(1) p0(1)] by simp
qed

lemma reclaimed_live_registered:
  assumes w: "live_registered st" and r: "reclaimed D st st'"
    and D: "\<And>s. s \<in> D \<Longrightarrow> stale_of st s"
  shows "live_registered st'"
  unfolding live_registered_iff reclaimedD(1) [OF r]
proof (intro allI impI)
  fix i assume i: "i < length (heap st)" and ns: "\<not> stale (heap st' ! i)"
  then have ns0: "\<not> stale (heap st ! i)" by (simp add: reclaimed_stale [OF r i])
  with w i have "i \<in> set (registry st)" by (simp add: live_registered_iff)
  moreover from ns0 i D [of i] have "i \<notin> D" by (auto simp: stale_of_def lookup_valid)
  ultimately show "i \<in> set (registry st')" by (simp add: reclaimedD(2) [OF r])
qed

lemma reclaimed_parents_older:
  assumes w: "parents_older st" and r: "reclaimed D st st'"
  shows "parents_older st'"
  unfolding parents_older_iff reclaimedD(1) [OF r]
proof (intro allI impI ballI)
  fix i p assume i: "i < length (heap st)" and "p \<in> set (parents (heap st' ! i))"
  then have "p \<in> set (parents (heap st ! i))" by (simp add: reclaimedD(4) [OF r i])
  with w i show "p < i" by (simp add: parents_older_iff)
qed

lemma reclaimed_well_formed:
  assumes wf: "well_formed st" and r: "reclaimed D st st'"
    and D: "\<And>s. s \<in> D \<Longrightarrow> stale_of st s"
  shows "well_formed st'"
proof -
  note w = well_formedD [OF wf]
  have "refs_valid st'" by (rule reclaimed_refs_valid [OF w(1) r])
  moreover have "distinct (registry st')" using w(2) by (simp add: reclaimedD(2) [OF r])
  moreover have "transposes_ok st'" by (rule reclaimed_transposes_ok [OF w(3) r D])
  moreover have "links_agree st'" by (rule reclaimed_links_agree [OF w(4) w(1) r])
  moreover have "live_registered st'" by (rule reclaimed_live_registered [OF w(5) r D])
  moreover have "parents_older st'" by (rule reclaimed_parents_older [OF w(6) r])
  ultimately show ?thesis by (simp add: well_formed_def)
qed

section \<open>The loop of the reclaimer\<close>

lemma reclaimed_stale_of:
  assumes "reclaimed D st st'"
  shows "stale_of st' i = stale_of st i"
proof (cases "i < length (heap st)")
  case True
  with reclaimedD(1) [OF assms] reclaimed_stale [OF assms True] show ?thesis
    by (simp add: stale_of_def lookup_def)
next
  case False
  with reclaimedD(1) [OF assms] show ?thesis
    by (simp add: stale_of_def lookup_def)
qed

lemma for_each_clear_one_nothing_stale:
  "(\<And>s. s \<in> set xs \<Longrightarrow> \<not> stale_of st s) \<Longrightarrow> for_each clear_one xs st = (None, st)"
  by (induction xs) (simp_all add: clear_one_not_stale)

lemma for_each_clear_one_reclaims:
  assumes "well_formed st" and "distinct xs" and "set xs \<subseteq> set (registry st)"
  shows "\<exists>st'. for_each clear_one xs st = (None, st')
              \<and> reclaimed {s \<in> set xs. stale_of st s} st st'"
  using assms
proof (induction xs arbitrary: st)
  case Nil
  then show ?case by simp
next
  case (Cons s xs)
  from Cons.prems have d: "distinct xs" and sx: "s \<notin> set xs"
    and sub: "set xs \<subseteq> set (registry st)" and sreg: "s \<in> set (registry st)"
    by auto
  show ?case
  proof (cases "stale_of st s")
    case False
    from Cons.IH [OF Cons.prems(1) d sub] obtain st' where
      "for_each clear_one xs st = (None, st')" "reclaimed {s \<in> set xs. stale_of st s} st st'"
      by blast
    moreover from False have "{x \<in> set (s # xs). stale_of st x} = {x \<in> set xs. stale_of st x}"
      by auto
    ultimately show ?thesis
      using False by (simp add: clear_one_not_stale)
  next
    case True
    from clear_one_reclaims [OF Cons.prems(1) sreg True] obtain st1 where
      c: "clear_one s st = (None, st1)" and r1: "reclaimed {s} st st1"
      by blast
    have wf1: "well_formed st1"
      using reclaimed_well_formed [OF Cons.prems(1) r1] True by simp
    have sub1: "set xs \<subseteq> set (registry st1)"
      using sub sx by (auto simp: reclaimedD(2) [OF r1])
    from Cons.IH [OF wf1 d sub1] obtain st' where
      l: "for_each clear_one xs st1 = (None, st')"
      and r2: "reclaimed {x \<in> set xs. stale_of st1 x} st1 st'"
      by blast
    have "{s} \<union> {x \<in> set xs. stale_of st1 x} = {x \<in> set (s # xs). stale_of st x}"
      using True by (auto simp: reclaimed_stale_of [OF r1])
    with reclaimed_trans [OF r1 r2] have "reclaimed {x \<in> set (s # xs). stale_of st x} st st'"
      by simp
    with c l show ?thesis by simp
  qed
qed

lemma stale_example_eq:
  "stale_example =
   \<lparr>heap =
    [\<lparr>data = mat 1 2 [1, 2], shape = [1, 2],
        grad_fn = None, grad = None, children = [1], parents = [],
        stale = False, extra = [], version = 0, tensor_type = PARAMETER,
        requires_grad = True\<rparr>,
     \<lparr>data = mat 2 1 [1, 2], shape = [2, 1],
        grad_fn = Some transpose_backward, grad = None, children = [2],
        parents = [0], stale = True, extra = [], version = 0,
        tensor_type = INTERMEDIATE, requires_grad = True\<rparr>,
     \<lparr>data = mat 2 1 [2, 3], shape = [2, 1],
        grad_fn = Some add_scalar_backward, grad = None, children = [],
        parents = [1], stale = False,
        extra = [(''scalar_value'', Number 1)], version = 0,
        tensor_type = INTERMEDIATE, requires_grad = True\<rparr>],
    registry = [0, 1, 2]\<rparr>"
  by code_simp

lemma well_formed_stale_example: "well_formed stale_example"
  by (simp add: stale_example_eq well_formed_def refs_valid_def transposes_ok_def links_agree_def
      live_registered_def parents_older_def grad_fn_of_def parents_of_def children_of_def lookup_def)

section \<open>A new node in a well-formed graph\<close>

lemma heap_create_node_old:
  assumes "j < length (heap st)"
  shows "heap (snd (create_node d gfn ps ex st)) ! j = add_children ps (length (heap st)) j (heap st ! j)"
proof -
  let ?st' = "snd (create_node d gfn ps ex st)"
  from assms have "lookup ?st' j = Some (heap ?st' ! j)" by (simp add: lookup_def)
  with assms lookup_create_node [of d gfn ps ex st j] show ?thesis by (simp add: lookup_def)
qed

lemma heap_create_node_new:
  assumes "length (heap st) \<notin> set ps"
  shows "heap (snd (create_node d gfn ps ex st)) ! length (heap st) = new_node d gfn ps ex st"
proof -
  let ?st' = "snd (create_node d gfn ps ex st)"
  have "lookup ?st' (length (heap st)) = Some (heap ?st' ! length (heap st))" by (simp add: lookup_def)
  with lookup_create_node [of d gfn ps ex st "length (heap st)"] assms show ?thesis
    by (simp add: add_children_def count_list_0_iff)
qed

lemma registry_create_node_fresh:
  "refs_valid st \<Longrightarrow> registry (snd (create_node d gfn ps ex st)) = registry st @ [length (heap st)]"
  using registry_valid [of st "length (heap st)"] by (auto simp: registry_create_node)

lemma grad_fn_of_create_node_old:
  "p < length (heap st) \<Longrightarrow> grad_fn_of (snd (create_node d gfn ps ex st)) p = grad_fn_of st p"
  by (simp add: grad_fn_of_def lookup_create_node lookup_valid add_children_def)

lemma create_node_refs_valid:
  assumes v: "refs_valid st" and ps: "\<forall>p \<in> set ps. p < length (heap st)"
  shows "refs_valid (snd (create_node d gfn ps ex st))"
proof -
  from ps have fresh: "length (heap st) \<notin> set ps" by auto
  show ?thesis
    unfolding refs_valid_iff length_heap_create_node registry_create_node_fresh [OF v]
  proof (intro conjI allI impI ballI)
    fix i p assume i: "i < Suc (length (heap st))"
      and p: "p \<in> set (parents (heap (snd (create_node d gfn ps ex st)) ! i))"
    show "p < Suc (length (heap st))"
    proof (cases "i < length (heap st)")
      case True
      with p have "p \<in> set (parents (heap st ! i))"
        by (simp add: heap_create_node_old add_children_def)
      from refs_validD(1) [OF v True this] show ?thesis by simp
    next
      case False
      with i have "i = length (heap st)" by simp
      with p ps show ?thesis
        by (auto simp: heap_create_node_new [OF fresh] new_node_def less_Suc_eq)
    qed
  next
    fix i c assume i: "i < Suc (length (heap st))"
      and c: "c \<in> set (children (heap (snd (create_node d gfn ps ex st)) ! i))"
    show "c < Suc (length (heap st))"
    proof (cases "i < length (heap st)")
      case True
      with c have "c \<in> set (children (heap st ! i)) \<or> c = length (heap st)"
        by (auto simp: heap_create_node_old add_children_def)
      with refs_validD(2) [OF v True] show ?thesis by (auto simp: less_Suc_eq)
    next
      case False
      with i have "i = length (heap st)" by simp
      with c show ?thesis
        by (simp add: heap_create_node_new [OF fresh] new_node_def)
    qed
  next
    fix i assume "i \<in> set (registry st @ [length (heap st)])"
    with registry_valid [OF v, of i] show "i < Suc (length (heap st))"
      by (auto simp: less_Suc_eq)
  qed
qed

lemma create_node_transposes_ok:
  assumes w: "transposes_ok st" and v: "refs_valid st"
    and ps: "\<forall>p \<in> set ps. p < length (heap st)"
    and tr: "gfn = Some transpose_backward \<Longrightarrow>
             \<exists>p. ps = [p] \<and> grad_fn_of st p \<noteq> Some transpose_backward"
  shows "transposes_ok (snd (create_node d gfn ps ex st))"
proof -
  let ?st' = "snd (create_node d gfn ps ex st)"
  from ps have fresh: "length (heap st) \<notin> set ps" by auto
  show ?thesis
    unfolding transposes_ok_iff length_heap_create_node
  proof (intro allI impI)
    fix i assume i: "i < Suc (length (heap st))"
    show "(stale (heap ?st' ! i) \<longrightarrow> grad_fn (heap ?st' ! i) = Some transpose_backward) \<and>
          (grad_fn (heap ?st' ! i) = Some transpose_backward \<longrightarrow>
            (\<exists>p. parents (heap ?st' ! i) = [p] \<and> grad_fn_of ?st' p \<noteq> Some transpose_backward))"
    proof (cases "i < length (heap st)")
      case True
      have f: "stale (heap ?st' ! i) = stale (heap st ! i)"
        "grad_fn (heap ?st' ! i) = grad_fn (heap st ! i)"
        "parents (heap ?st' ! i) = parents (heap st ! i)"
        by (simp_all add: heap_create_node_old [OF True] add_children_def)
      show ?thesis
        unfolding f
      proof (intro conjI impI)
        assume "stale (heap st ! i)"
        then show "grad_fn (heap st ! i) = Some transpose_backward"
          by (rule stale_is_transpose [OF w True])
      next
        assume "grad_fn (heap st ! i) = Some transpose_backward"
        from transpose_parent [OF w True this]
        obtain p where p: "parents (heap st ! i) = [p]" "grad_fn_of st p \<noteq> Some transpose_backward" .
        from refs_validD(1) [OF v True, of p] p(1) have "p < length (heap st)" by simp
        with p show "\<exists>p. parents (heap st ! i) = [p] \<and> grad_fn_of ?st' p \<noteq> Some transpose_backward"
          by (simp add: grad_fn_of_create_node_old)
      qed
    next
      case False
      with i have e: "i = length (heap st)" by simp
      show ?thesis
        unfolding e heap_create_node_new [OF fresh]
      proof (intro conjI impI)
        assume "stale (new_node d gfn ps ex st)"
        then show "grad_fn (new_node d gfn ps ex st) = Some transpose_backward"
          by (simp add: new_node_def)
      next
        assume "grad_fn (new_node d gfn ps ex st) = Some transpose_backward"
        then have "gfn = Some transpose_backward" by (simp add: new_node_def)
        from tr [OF this] obtain p where p: "ps = [p]" "grad_fn_of st p \<noteq> Some transpose_backward"
          by blast
        with ps have "p < length (heap st)" by simp
        with p show "\<exists>p. parents (new_node d gfn ps ex st) = [p]
                        \<and> grad_fn_of ?st' p \<noteq> Some transpose_backward"
          by (simp add: new_node_def grad_fn_of_create_node_old)
      qed
    qed
  qed
qed


lemma count_list_replicate: "count_list (replicate k x) y = (if x = y then k else 0)"
  by (induction k) auto

lemma parents_of_create_node:
  "length (heap st) \<notin> set ps \<Longrightarrow>
   parents_of (snd (create_node d gfn ps ex st)) c =
     (if c = length (heap st) then ps else parents_of st c)"
  unfolding parents_of_def lookup_create_node
  by (auto simp: add_children_def new_node_def lookup_def)

lemma children_of_create_node:
  "length (heap st) \<notin> set ps \<Longrightarrow>
   children_of (snd (create_node d gfn ps ex st)) p =
     (if p < length (heap st) then children_of st p @ replicate (count_list ps p) (length (heap st))
      else [])"
  unfolding children_of_def lookup_create_node
  by (auto simp: add_children_def new_node_def lookup_def count_list_0_iff)

lemma create_node_links_agree:
  assumes w: "links_agree st" and v: "refs_valid st"
    and ps: "\<forall>p \<in> set ps. p < length (heap st)"
  shows "links_agree (snd (create_node d gfn ps ex st))"
proof -
  let ?n = "length (heap st)"
  from ps have fresh: "?n \<notin> set ps" by auto
  have no_child: "count_list (children_of st p) ?n = 0" for p
  proof (cases "p < ?n")
    case True
    with refs_validD(2) [OF v True, of ?n] show ?thesis
      by (auto simp: children_of_def lookup_valid count_list_0_iff)
  next
    case False
    then show ?thesis by (simp add: children_of_def lookup_def)
  qed
  have no_parent: "count_list (parents_of st c) ?n = 0" for c
  proof (cases "c < ?n")
    case True
    with refs_validD(1) [OF v True, of ?n] show ?thesis
      by (auto simp: parents_of_def lookup_valid count_list_0_iff)
  next
    case False
    then show ?thesis by (simp add: parents_of_def lookup_def)
  qed
  show ?thesis
    unfolding links_agree_def registry_create_node_fresh [OF v]
  proof (intro ballI)
    fix c p assume c: "c \<in> set (registry st @ [?n])" and p: "p \<in> set (registry st @ [?n])"
    from c registry_valid [OF v, of c] have c': "c \<in> set (registry st) \<and> c < ?n \<or> c = ?n" by auto
    from p registry_valid [OF v, of p] have p': "p \<in> set (registry st) \<and> p < ?n \<or> p = ?n" by auto
    from fresh have fr: "count_list ps ?n = 0" by (simp add: count_list_0_iff)
    from c' p' show "count_list (parents_of (snd (create_node d gfn ps ex st)) c) p
          = count_list (children_of (snd (create_node d gfn ps ex st)) p) c"
    proof (elim disjE conjE)
      assume "c \<in> set (registry st)" "c < ?n" "p \<in> set (registry st)" "p < ?n"
      with links_agreeD [OF w] show ?thesis
        by (simp add: parents_of_create_node [OF fresh] children_of_create_node [OF fresh]
            count_list_replicate)
    next
      assume "c \<in> set (registry st)" "c < ?n" "p = ?n"
      with no_parent [of c] show ?thesis
        by (simp add: parents_of_create_node [OF fresh] children_of_create_node [OF fresh])
    next
      assume "c = ?n" "p \<in> set (registry st)" "p < ?n"
      with no_child [of p] show ?thesis
        by (simp add: parents_of_create_node [OF fresh] children_of_create_node [OF fresh]
            count_list_replicate)
    next
      assume "c = ?n" "p = ?n"
      with fr show ?thesis
        by (simp add: parents_of_create_node [OF fresh] children_of_create_node [OF fresh])
    qed
  qed
qed

lemma create_node_live_registered:
  assumes w: "live_registered st" and v: "refs_valid st"
  shows "live_registered (snd (create_node d gfn ps ex st))"
  unfolding live_registered_iff length_heap_create_node registry_create_node_fresh [OF v]
proof (intro allI impI)
  fix i assume i: "i < Suc (length (heap st))"
    and ns: "\<not> stale (heap (snd (create_node d gfn ps ex st)) ! i)"
  show "i \<in> set (registry st @ [length (heap st)])"
  proof (cases "i < length (heap st)")
    case True
    with ns have "\<not> stale (heap st ! i)" by (simp add: heap_create_node_old add_children_def)
    with w True show ?thesis by (simp add: live_registered_iff)
  next
    case False
    with i show ?thesis by simp
  qed
qed

lemma create_node_parents_older:
  assumes w: "parents_older st" and ps: "\<forall>p \<in> set ps. p < length (heap st)"
  shows "parents_older (snd (create_node d gfn ps ex st))"
proof -
  from ps have fresh: "length (heap st) \<notin> set ps" by auto
  show ?thesis
    unfolding parents_older_iff length_heap_create_node
  proof (intro allI impI ballI)
    fix i p assume i: "i < Suc (length (heap st))"
      and p: "p \<in> set (parents (heap (snd (create_node d gfn ps ex st)) ! i))"
    show "p < i"
    proof (cases "i < length (heap st)")
      case True
      with p have "p \<in> set (parents (heap st ! i))" by (simp add: heap_create_node_old add_children_def)
      with w True show ?thesis by (simp add: parents_older_iff)
    next
      case False
      with i have "i = length (heap st)" by simp
      with p ps show ?thesis by (simp add: heap_create_node_new [OF fresh] new_node_def)
    qed
  qed
qed

lemma create_node_well_formed:
  assumes wf: "well_formed st" and ps: "\<forall>p \<in> set ps. p < length (heap st)"
    and tr: "gfn = Some transpose_backward \<Longrightarrow>
             \<exists>p. ps = [p] \<and> grad_fn_of st p \<noteq> Some transpose_backward"
  shows "well_formed (snd (create_node d gfn ps ex st))"
proof -
  note w = well_formedD [OF wf]
  have "refs_valid (snd (create_node d gfn ps ex st))"
    by (rule create_node_refs_valid [OF w(1) ps])
  moreover have "distinct (registry (snd (create_node d gfn ps ex st)))"
    using w(2) registry_valid [OF w(1), of "length (heap st)"]
    by (auto simp: registry_create_node_fresh [OF w(1)])
  moreover have "transposes_ok (snd (create_node d gfn ps ex st))"
    by (rule create_node_transposes_ok [OF w(3) w(1) ps tr])
  moreover have "links_agree (snd (create_node d gfn ps ex st))"
    by (rule create_node_links_agree [OF w(4) w(1) ps])
  moreover have "live_registered (snd (create_node d gfn ps ex st))"
    by (rule create_node_live_registered [OF w(5) w(1)])
  moreover have "parents_older (snd (create_node d gfn ps ex st))"
    by (rule create_node_parents_older [OF w(6) ps])
  ultimately show ?thesis by (simp add: well_formed_def)
qed

section \<open>Operations that keep a graph well-formed\<close>

lemma well_formed_initial_state: "well_formed initial_state"
  by (simp add: well_formed_def refs_valid_def transposes_ok_def links_agree_def
      live_registered_def parents_older_def initial_state_def)

lemma well_formed_same_graph:
  assumes wf: "well_formed st"
    and len: "length (heap st') = length (heap st)"
    and reg: "registry st' = registry st"
    and par: "\<And>i. i < length (heap st) \<Longrightarrow> parents (heap st' ! i) = parents (heap st ! i)"
    and chi: "\<And>i. i < length (heap st) \<Longrightarrow> children (heap st' ! i) = children (heap st ! i)"
    and gfn: "\<And>i. i < length (heap st) \<Longrightarrow> grad_fn (heap st' ! i) = grad_fn (heap st ! i)"
    and stl: "\<And>i. i < length (heap st) \<Longrightarrow>
                stale (heap st' ! i) = stale (heap st ! i)
                \<or> (stale (heap st' ! i) \<and> grad_fn (heap st ! i) = Some transpose_backward)"
  shows "well_formed st'"
proof -
  note w = well_formedD [OF wf]
  have gfo: "grad_fn_of st' p = grad_fn_of st p" for p
  proof (cases "p < length (heap st)")
    case True
    with gfn [OF True] show ?thesis by (simp add: grad_fn_of_def lookup_def len)
  next
    case False
    then show ?thesis by (simp add: grad_fn_of_def lookup_def len)
  qed
  have po: "parents_of st' c = parents_of st c" for c
  proof (cases "c < length (heap st)")
    case True
    with par [OF True] show ?thesis by (simp add: parents_of_def lookup_def len)
  next
    case False
    then show ?thesis by (simp add: parents_of_def lookup_def len)
  qed
  have co: "children_of st' c = children_of st c" for c
  proof (cases "c < length (heap st)")
    case True
    with chi [OF True] show ?thesis by (simp add: children_of_def lookup_def len)
  next
    case False
    then show ?thesis by (simp add: children_of_def lookup_def len)
  qed
  have "refs_valid st'"
    unfolding refs_valid_iff len reg
  proof (intro conjI allI impI ballI)
    fix i p assume i: "i < length (heap st)" and "p \<in> set (parents (heap st' ! i))"
    then have "p \<in> set (parents (heap st ! i))" by (simp only: par [OF i])
    with w(1) i show "p < length (heap st)" by (rule refs_validD(1))
  next
    fix i c assume i: "i < length (heap st)" and "c \<in> set (children (heap st' ! i))"
    then have "c \<in> set (children (heap st ! i))" by (simp only: chi [OF i])
    with w(1) i show "c < length (heap st)" by (rule refs_validD(2))
  next
    fix i assume "i \<in> set (registry st)"
    with w(1) show "i < length (heap st)" by (rule registry_valid)
  qed
  moreover have "distinct (registry st')" using w(2) by (simp only: reg)
  moreover have "transposes_ok st'"
    unfolding transposes_ok_iff len
  proof (intro allI impI conjI)
    fix i assume i: "i < length (heap st)"
    show "grad_fn (heap st' ! i) = Some transpose_backward" if s: "stale (heap st' ! i)"
    proof -
      from stl [OF i] s have "stale (heap st ! i) \<or> grad_fn (heap st ! i) = Some transpose_backward"
        by blast
      with stale_is_transpose [OF w(3) i] have "grad_fn (heap st ! i) = Some transpose_backward"
        by blast
      then show ?thesis by (simp only: gfn [OF i])
    qed
    show "\<exists>p. parents (heap st' ! i) = [p] \<and> grad_fn_of st' p \<noteq> Some transpose_backward"
      if "grad_fn (heap st' ! i) = Some transpose_backward"
    proof -
      from that have "grad_fn (heap st ! i) = Some transpose_backward" by (simp only: gfn [OF i])
      from transpose_parent [OF w(3) i this]
      obtain p where "parents (heap st ! i) = [p]" "grad_fn_of st p \<noteq> Some transpose_backward" .
      then have "parents (heap st' ! i) = [p] \<and> grad_fn_of st' p \<noteq> Some transpose_backward"
        by (simp only: par [OF i] gfo) simp
      then show ?thesis ..
    qed
  qed
  moreover have "links_agree st'"
    unfolding links_agree_def reg po co
    using w(4) unfolding links_agree_def .
  moreover have "live_registered st'"
    unfolding live_registered_iff len reg
  proof (intro allI impI)
    fix i assume i: "i < length (heap st)" and ns: "\<not> stale (heap st' ! i)"
    from stl [OF i] ns have "\<not> stale (heap st ! i)" by blast
    with unregistered_is_stale [OF w(5) i] show "i \<in> set (registry st)" by blast
  qed
  moreover have "parents_older st'"
    unfolding parents_older_iff len
  proof (intro allI impI ballI)
    fix i p assume i: "i < length (heap st)" and "p \<in> set (parents (heap st' ! i))"
    then have "p \<in> set (parents (heap st ! i))" by (simp only: par [OF i])
    with w(6) i show "p < i" by (rule parents_older_nth)
  qed
  ultimately show ?thesis by (simp only: well_formed_def simp_thms)
qed


lemma mark_stale_well_formed:
  assumes wf: "well_formed st" and x: "x < length (heap st)"
    and tr: "grad_fn (heap st ! x) = Some transpose_backward"
  shows "well_formed (modify x (\<lambda>t. t\<lparr>stale := True\<rparr>) st)"
proof (rule well_formed_same_graph [OF wf])
  fix i assume i: "i < length (heap st)"
  show "parents (heap (modify x (\<lambda>t. t\<lparr>stale := True\<rparr>) st) ! i) = parents (heap st ! i)"
    by (simp add: heap_modify_nth [OF i])
  show "children (heap (modify x (\<lambda>t. t\<lparr>stale := True\<rparr>) st) ! i) = children (heap st ! i)"
    by (simp add: heap_modify_nth [OF i])
  show "grad_fn (heap (modify x (\<lambda>t. t\<lparr>stale := True\<rparr>) st) ! i) = grad_fn (heap st ! i)"
    by (simp add: heap_modify_nth [OF i])
  show "stale (heap (modify x (\<lambda>t. t\<lparr>stale := True\<rparr>) st) ! i) = stale (heap st ! i)
        \<or> (stale (heap (modify x (\<lambda>t. t\<lparr>stale := True\<rparr>) st) ! i)
            \<and> grad_fn (heap st ! i) = Some transpose_backward)"
    using tr by (simp add: heap_modify_nth [OF i])
qed simp_all

lemma Tensor_T_new:
  "lookup st x = Some tx \<Longrightarrow> \<not> (grad_fn tx = Some transpose_backward \<and> length (parents tx) = 1) \<Longrightarrow>
   Tensor_T x st =
     (Inr (length (heap st)), snd (create_node (nd_T (data tx)) (Some transpose_backward) [x] [] st))"
  by (auto simp: Tensor_T_def split_beta)

lemma Tensor_T_back:
  "lookup st x = Some tx \<Longrightarrow> grad_fn tx = Some transpose_backward \<Longrightarrow> parents tx = [p] \<Longrightarrow>
   Tensor_T x st = (Inr p, modify x (\<lambda>t. t\<lparr>stale := True\<rparr>) st)"
  by (simp add: Tensor_T_def)

lemma not_transposed:
  assumes "transposes_ok st" and "lookup st x = Some tx"
    and "\<not> (grad_fn tx = Some transpose_backward \<and> length (parents tx) = 1)"
  shows "grad_fn_of st x \<noteq> Some transpose_backward"
proof
  assume a: "grad_fn_of st x = Some transpose_backward"
  from assms(2) have x: "x < length (heap st)" and tx: "tx = heap st ! x"
    by (auto simp: lookup_def split: if_splits)
  from a assms(2) have g: "grad_fn (heap st ! x) = Some transpose_backward"
    by (simp add: grad_fn_of_def tx)
  from transpose_parent [OF assms(1) x g] obtain p where "parents (heap st ! x) = [p]" by blast
  with g assms(3) show False by (simp add: tx)
qed

lemma Tensor_T_well_formed:
  assumes wf: "well_formed st"
  shows "well_formed (snd (Tensor_T x st))"
proof (cases "lookup st x")
  case None
  with wf show ?thesis by (simp add: Tensor_T_def)
next
  case (Some tx)
  then have x: "x < length (heap st)" and tx: "tx = heap st ! x"
    by (auto simp: lookup_def split: if_splits)
  note w = well_formedD [OF wf]
  show ?thesis
  proof (cases "grad_fn tx = Some transpose_backward \<and> length (parents tx) = 1")
    case True
    then obtain p where "parents tx = [p]" by (cases "parents tx") auto
    with Tensor_T_back [OF Some _ this] True have "snd (Tensor_T x st) = modify x (\<lambda>t. t\<lparr>stale := True\<rparr>) st"
      by simp
    with mark_stale_well_formed [OF wf x] True show ?thesis by (simp add: tx)
  next
    case False
    from not_transposed [OF w(3) Some False]
    have "well_formed (snd (create_node (nd_T (data tx)) (Some transpose_backward) [x] [] st))"
      using x by (intro create_node_well_formed [OF wf]) auto
    with Tensor_T_new [OF Some False] show ?thesis by simp
  qed
qed

lemma clear_stale_tensors_reclaimed:
  assumes "well_formed st"
  shows "\<exists>st'. clear_stale_tensors st = (None, st')
              \<and> reclaimed {s \<in> set (registry st). stale_of st s} st st'"
  unfolding clear_stale_tensors_def
  by (rule for_each_clear_one_reclaims [OF assms well_formedD(2) [OF assms] subset_refl])

lemma matrix_leaf_eq:
  "matrix_leaf =
     \<lparr>heap = [\<lparr>data = mat 1 2 [1, 2], shape = [1, 2], grad_fn = None, grad = None, children = [],
               parents = [], stale = False, extra = [], version = 0,
               tensor_type = PARAMETER, requires_grad = True\<rparr>],
      registry = [0]\<rparr>"
  by (simp add: matrix_leaf_def Tensor_init_eq initial_state_def mat_def)

lemma well_formed_matrix_leaf: "well_formed matrix_leaf"
  by (simp add: matrix_leaf_eq well_formed_def refs_valid_def transposes_ok_def links_agree_def
      live_registered_def parents_older_def grad_fn_of_def parents_of_def children_of_def lookup_def)

section \<open>The order from the output\<close>

lemma grad_path_source_requires_grad: "grad_path st n m \<Longrightarrow> requires_grad_of st n"
  by (induction rule: grad_path.induct) auto

lemma parents_first_closed:
  assumes f: "parents_first st order" and n: "n \<in> set order" and p: "grad_path st n m"
  shows "m \<in> set order"
  using p n
proof (induction rule: grad_path.induct)
  case (here n)
  then show ?case by simp
next
  case (step n p m)
  from step.prems obtain i where i: "i < length order" "order ! i = n"
    by (auto simp: in_set_conv_nth)
  from step.hyps(3) have "requires_grad_of st p" by (rule grad_path_source_requires_grad)
  with f i step.hyps(2) have "p \<in> set (take i order)"
    unfolding parents_first_def by blast
  then have "p \<in> set order" by (rule in_set_takeD)
  then show ?case by (rule step.IH)
qed

lemma topo_order_of_spec:
  assumes "parents_older st"
  shows "distinct (topo_order_of st out)"
    and "set (topo_order_of st out) = {m. grad_path st out m}"
    and "parents_first st (topo_order_of st out)"
proof -
  from build_topo_spec(1) [OF assms, of "({}, [])" out]
  obtain new where b: "build_topo st out ({}, []) = (set new, new)" and d: "distinct new"
    and g: "\<forall>m \<in> set new. grad_path st out m" and f: "parents_first st new"
    and o: "requires_grad_of st out \<longrightarrow> out \<in> set new"
    by auto
  have O: "topo_order_of st out = new" unfolding topo_order_of_def b by simp
  show "distinct (topo_order_of st out)" using d by (simp add: O)
  show "parents_first st (topo_order_of st out)" using f by (simp add: O)
  show "set (topo_order_of st out) = {m. grad_path st out m}"
  proof (intro equalityI subsetI)
    fix m assume "m \<in> set (topo_order_of st out)"
    with g show "m \<in> {m. grad_path st out m}" by (simp add: O)
  next
    fix m assume "m \<in> {m. grad_path st out m}"
    then have p: "grad_path st out m" by simp
    then have "requires_grad_of st out" by (rule grad_path_source_requires_grad)
    with o have "out \<in> set new" by simp
    from parents_first_closed [OF f this p] show "m \<in> set (topo_order_of st out)" by (simp add: O)
  qed
qed

lemma topo_order_of_last:
  "requires_grad_of st out \<Longrightarrow> topo_order_of st out \<noteq> [] \<and> last (topo_order_of st out) = out"
  by (simp add: topo_order_of_def split_beta)

lemma topo_order_of_not_required:
  "\<not> requires_grad_of st out \<Longrightarrow> topo_order_of st out = []"
  by (simp add: topo_order_of_def)

section \<open>What the backward pass leaves alone\<close>

lemma only_grads_refl [simp]: "only_grads st st"
  by (simp add: only_grads_def)

lemma only_grads_trans: "only_grads st st' \<Longrightarrow> only_grads st' st'' \<Longrightarrow> only_grads st st''"
  by (simp add: only_grads_def)

lemma only_grads_set_grad: "only_grads st (modify i (\<lambda>t. t\<lparr>grad := g\<rparr>) st)"
  by (simp add: only_grads_def heap_modify_nth)

lemma only_gradsD:
  assumes "only_grads st st'"
  shows "length (heap st') = length (heap st)" and "registry st' = registry st"
    and "i < length (heap st) \<Longrightarrow> (heap st' ! i)\<lparr>grad := None\<rparr> = (heap st ! i)\<lparr>grad := None\<rparr>"
  using assms by (simp_all add: only_grads_def)

lemma only_grads_fields:
  assumes o: "only_grads st st'" and i: "i < length (heap st)"
  shows "parents (heap st' ! i) = parents (heap st ! i)"
    and "children (heap st' ! i) = children (heap st ! i)"
    and "grad_fn (heap st' ! i) = grad_fn (heap st ! i)"
    and "stale (heap st' ! i) = stale (heap st ! i)"
    and "tensor_type (heap st' ! i) = tensor_type (heap st ! i)"
    and "requires_grad (heap st' ! i) = requires_grad (heap st ! i)"
    and "data (heap st' ! i) = data (heap st ! i)"
proof -
  note e = only_gradsD(3) [OF o i]
  from arg_cong [OF e, of parents] show "parents (heap st' ! i) = parents (heap st ! i)" by simp
  from arg_cong [OF e, of children] show "children (heap st' ! i) = children (heap st ! i)" by simp
  from arg_cong [OF e, of grad_fn] show "grad_fn (heap st' ! i) = grad_fn (heap st ! i)" by simp
  from arg_cong [OF e, of stale] show "stale (heap st' ! i) = stale (heap st ! i)" by simp
  from arg_cong [OF e, of tensor_type] show "tensor_type (heap st' ! i) = tensor_type (heap st ! i)" by simp
  from arg_cong [OF e, of requires_grad] show "requires_grad (heap st' ! i) = requires_grad (heap st ! i)" by simp
  from arg_cong [OF e, of data] show "data (heap st' ! i) = data (heap st ! i)" by simp
qed

lemma only_grads_of:
  assumes o: "only_grads st st'"
  shows "parents_of st' i = parents_of st i" and "requires_grad_of st' i = requires_grad_of st i"
    and "grad_fn_of st' i = grad_fn_of st i" and "tensor_type_of st' i = tensor_type_of st i"
    and "children_of st' i = children_of st i" and "stale_of st' i = stale_of st i"
    and "data_of st' i = data_of st i"
proof -
  note len = only_gradsD(1) [OF o]
  show "parents_of st' i = parents_of st i"
    using only_grads_fields(1) [OF o, of i] by (cases "i < length (heap st)") (simp_all add: parents_of_def lookup_def len)
  show "requires_grad_of st' i = requires_grad_of st i"
    using only_grads_fields(6) [OF o, of i] by (cases "i < length (heap st)") (simp_all add: requires_grad_of_def lookup_def len)
  show "grad_fn_of st' i = grad_fn_of st i"
    using only_grads_fields(3) [OF o, of i] by (cases "i < length (heap st)") (simp_all add: grad_fn_of_def lookup_def len)
  show "tensor_type_of st' i = tensor_type_of st i"
    using only_grads_fields(5) [OF o, of i] by (cases "i < length (heap st)") (simp_all add: tensor_type_of_def lookup_def len)
  show "children_of st' i = children_of st i"
    using only_grads_fields(2) [OF o, of i] by (cases "i < length (heap st)") (simp_all add: children_of_def lookup_def len)
  show "stale_of st' i = stale_of st i"
    using only_grads_fields(4) [OF o, of i] by (cases "i < length (heap st)") (simp_all add: stale_of_def lookup_def len)
  show "data_of st' i = data_of st i"
    using only_grads_fields(7) [OF o, of i] by (cases "i < length (heap st)") (simp_all add: data_of_def lookup_def len)
qed

lemma only_grads_for_each:
  assumes "\<And>x s. only_grads s (snd (body x s))"
  shows "only_grads st (snd (for_each body xs st))"
proof (induction xs arbitrary: st)
  case Nil
  then show ?case by simp
next
  case (Cons x xs)
  obtain r st' where b: "body x st = (r, st')" by (cases "body x st")
  with assms [of st x] have k: "only_grads st st'" by simp
  show ?case
  proof (cases r)
    case None
    with b k Cons.IH [of st'] show ?thesis by (auto intro: only_grads_trans)
  next
    case (Some e)
    with b k show ?thesis by simp
  qed
qed

lemma grad_of_modify:
  "grad_of (modify i (\<lambda>t. t\<lparr>grad := g\<rparr>) st) j =
     (if j = i \<and> i < length (heap st) then g else grad_of st j)"
  unfolding grad_of_def lookup_modify by (auto simp: lookup_def)

lemma grad_of_set_grad:
  "grad_of (set_grad i v st) j = (if j = i \<and> i < length (heap st) then Some v else grad_of st j)"
  by (simp add: set_grad_def grad_of_modify)

lemma only_grads_accumulate: "only_grads st (snd (accumulate pg st))"
  by (auto simp: accumulate_def set_grad_def only_grads_set_grad split: prod.splits option.splits sum.splits)

lemma grad_of_accumulate_other:
  "i \<noteq> fst pg \<Longrightarrow> grad_of (snd (accumulate pg st)) i = grad_of st i"
  by (auto simp: accumulate_def grad_of_set_grad split: prod.splits option.splits sum.splits)

lemma grad_of_for_each_accumulate_other:
  "i \<notin> fst ` set pgs \<Longrightarrow> grad_of (snd (for_each accumulate pgs st)) i = grad_of st i"
proof (induction pgs arbitrary: st)
  case Nil
  then show ?case by simp
next
  case (Cons pg pgs)
  obtain r st' where a: "accumulate pg st = (r, st')" by (cases "accumulate pg st")
  from Cons.prems have "i \<noteq> fst pg" by auto
  from grad_of_accumulate_other [OF this, of st] a have g: "grad_of st' i = grad_of st i" by simp
  show ?case
  proof (cases r)
    case None
    with a g Cons.IH [of st'] Cons.prems show ?thesis by simp
  next
    case (Some e)
    with a g show ?thesis by simp
  qed
qed

lemma only_grads_process_node: "only_grads st (snd (process_node gf keep self node st))"
proof -
  have acc: "only_grads st (snd (for_each accumulate xs st))" for xs
    by (intro only_grads_for_each only_grads_accumulate)
  have clr: "only_grads s (modify node (\<lambda>t. t\<lparr>grad := None\<rparr>) s)" for s :: "'a state"
    by (rule only_grads_set_grad)
  from process_node_cases [of gf keep self node st] show ?thesis
    using acc only_grads_trans [OF acc clr] by auto
qed

lemma grad_of_process_node_other:
  assumes "i \<notin> set (parents_of st node)" and "i \<noteq> node \<or> keep \<or> node = self"
  shows "grad_of (snd (process_node gf keep self node st)) i = grad_of st i"
proof (cases "lookup st node")
  case None
  then show ?thesis by (simp add: process_node_def)
next
  case (Some t)
  then have ps: "parents_of st node = parents t" by (simp add: parents_of_def)
  have acc: "grad_of (snd (for_each accumulate (zip (parents t) gs) st)) i = grad_of st i" for gs
  proof (rule grad_of_for_each_accumulate_other)
    show "i \<notin> fst ` set (zip (parents t) gs)"
      using assms(1) by (auto simp: ps dest: set_zip_leftD)
  qed
  show ?thesis
  proof (cases "grad_fn t")
    case None
    with Some show ?thesis by (simp add: process_node_def)
  next
    case f: (Some f)
    show ?thesis
    proof (cases "grad t")
      case None
      with Some f show ?thesis by (simp add: process_node_def)
    next
      case g: (Some g)
      show ?thesis
      proof (cases "gf f st node g")
        case (Inl e)
        with Some f g show ?thesis by (simp add: process_node_def)
      next
        case (Inr gs)
        obtain r st' where a: "for_each accumulate (zip (parents t) gs) st = (r, st')"
          by (cases "for_each accumulate (zip (parents t) gs) st")
        with acc [of gs] have k: "grad_of st' i = grad_of st i" by simp
        show ?thesis
          using Some f g Inr a k assms(2)
          by (cases r) (auto simp: process_node_def grad_of_modify)
      qed
    qed
  qed
qed

lemma grad_of_pass_other:
  assumes "only_grads st0 st"
    and "\<And>n. n \<in> set xs \<Longrightarrow> i \<notin> set (parents_of st0 n)"
    and "i \<notin> set xs \<or> keep \<or> i = self"
  shows "grad_of (snd (for_each (process_node gf keep self) xs st)) i = grad_of st i"
  using assms
proof (induction xs arbitrary: st)
  case Nil
  then show ?case by simp
next
  case (Cons n xs)
  obtain r st' where p: "process_node gf keep self n st = (r, st')"
    by (cases "process_node gf keep self n st")
  from only_grads_process_node [of st gf keep self n] p have o: "only_grads st st'" by simp
  have "i \<notin> set (parents_of st n)"
    using Cons.prems(2) [of n] by (simp add: only_grads_of(1) [OF Cons.prems(1)])
  moreover have "i \<noteq> n \<or> keep \<or> n = self" using Cons.prems(3) by auto
  ultimately have g: "grad_of st' i = grad_of st i"
    using grad_of_process_node_other [of i st n keep self gf] p by simp
  show ?case
  proof (cases r)
    case None
    have "grad_of (snd (for_each (process_node gf keep self) xs st')) i = grad_of st' i"
      using Cons.prems(2,3) by (intro Cons.IH only_grads_trans [OF Cons.prems(1) o]) auto
    with None p g show ?thesis by simp
  next
    case (Some e)
    with p g show ?thesis by simp
  qed
qed

lemma only_grads_pass: "only_grads st (snd (for_each (process_node gf keep self) xs st))"
  by (intro only_grads_for_each only_grads_process_node)

text \<open>Where an exception of the pass comes from.\<close>

lemma np_add_error: "np_add a b = Inl e \<Longrightarrow> e = BroadcastError"
  by (auto simp: np_add_def BroadcastError_def split: if_splits option.splits)

lemma accumulate_error: "fst (accumulate pg st) = Some e \<Longrightarrow> e = BroadcastError"
  by (auto simp: accumulate_def split: prod.splits option.splits sum.splits if_splits dest: np_add_error)

lemma for_each_error:
  assumes "\<And>x s e. fst (body x s) = Some e \<Longrightarrow> P e"
  shows "fst (for_each body xs st) = Some e \<Longrightarrow> P e"
proof (induction xs arbitrary: st)
  case Nil
  then show ?case by simp
next
  case (Cons x xs)
  obtain r st' where b: "body x st = (r, st')" by (cases "body x st")
  show ?case
  proof (cases r)
    case None
    with b Cons.prems Cons.IH [of st'] show ?thesis by simp
  next
    case (Some e')
    with b Cons.prems assms [of x st e'] show ?thesis by simp
  qed
qed

lemma process_node_error:
  assumes "fst (process_node gf keep self node st) = Some e"
  shows "(\<exists>f s n g. gf f s n g = Inl e) \<or> e = BroadcastError"
proof -
  have acc: "for_each accumulate xs s = (Some e, s') \<Longrightarrow> e = BroadcastError"
    for xs and s s' :: "'a state"
    using for_each_error [of accumulate "\<lambda>e. e = BroadcastError" xs s e] accumulate_error
    by fastforce
  from assms show ?thesis
    by (auto simp: process_node_def split: option.splits sum.splits prod.splits if_splits
        dest: acc)
qed

section \<open>The checks before the pass\<close>

lemma clear_stale_tensors_well_formed:
  assumes "well_formed st"
  shows "fst (clear_stale_tensors st) = None" and "well_formed (snd (clear_stale_tensors st))"
proof -
  from clear_stale_tensors_reclaimed [OF assms] obtain st' where
    c: "clear_stale_tensors st = (None, st')"
    and r: "reclaimed {s \<in> set (registry st). stale_of st s} st st'"
    by blast
  from c show "fst (clear_stale_tensors st) = None" by simp
  from reclaimed_well_formed [OF assms r] c show "well_formed (snd (clear_stale_tensors st))"
    by simp
qed

lemma grad_path_le:
  assumes po: "parents_older st"
  shows "grad_path st a b \<Longrightarrow> b \<le> a"
proof (induction rule: grad_path.induct)
  case (here n)
  then show ?case by simp
next
  case (step n p m)
  from parents_older_less [OF po step.hyps(2)] step.IH
  show ?case by simp
qed

lemma output_not_parent:
  assumes po: "parents_older st" and n: "n \<in> set (topo_order_of st out)"
  shows "out \<notin> set (parents_of st n)"
proof
  assume "out \<in> set (parents_of st n)"
  with po have "out < n" by (rule parents_older_less)
  moreover from n topo_order_of_spec(2) [OF po, of out] have "grad_path st out n" by simp
  then have "n \<le> out" by (rule grad_path_le [OF po])
  ultimately show False by simp
qed

lemma pass_error:
  "fst (for_each (process_node gf keep self) xs st) = Some e
   \<Longrightarrow> (\<exists>f s n g. gf f s n g = Inl e) \<or> e = BroadcastError"
  by (rule for_each_error [of "process_node gf keep self"
        "\<lambda>e. (\<exists>f s n g. gf f s n g = Inl e) \<or> e = BroadcastError"])
     (rule process_node_error)

lemma backward_pass_eq:
  assumes "clear_stale_tensors st = (None, st0)" and "lookup st0 self = Some t"
    and "requires_grad t" and "gradient \<noteq> None \<or> nd_size (data t) = 1"
  shows "backward gf self gradient keep st =
           for_each (process_node gf keep self) (rev (topo_order_of st0 self))
             (set_grad self (case gradient of None \<Rightarrow> ones_like (data t) | Some g \<Rightarrow> g) st0)"
  using assms by (auto simp: backward_def Let_def)

lemma stale_leaves_eq:
  "stale_leaves = reclaimed_leaves\<lparr>heap := (heap reclaimed_leaves)[0 := (heap reclaimed_leaves ! 0)\<lparr>children := [3]\<rparr>],
                                   registry := [0, 1, 2, 3]\<rparr>"
  by code_simp

lemma well_formed_stale_leaves: "well_formed stale_leaves"
  by (simp add: stale_leaves_eq reclaimed_leaves_def well_formed_def refs_valid_def transposes_ok_def
      links_agree_def live_registered_def parents_older_def grad_fn_of_def parents_of_def
      children_of_def lookup_def)

lemma clear_stale_tensors_stale_leaves:
  "clear_stale_tensors stale_leaves = (None, reclaimed_leaves)"
  by code_simp

section \<open>One turn of the backward pass\<close>

lemma for_each_append:
  "for_each body (xs @ ys) st =
     (case for_each body xs st of (Some e, st') \<Rightarrow> (Some e, st') | (None, st') \<Rightarrow> for_each body ys st')"
  by (induction xs arbitrary: st) (auto split: prod.splits option.splits)

lemma sum_contributions_append:
  "sum_contributions old (xs @ ys) =
     (case sum_contributions old xs of Inl e \<Rightarrow> Inl e | Inr v \<Rightarrow> sum_contributions v ys)"
  by (induction old xs rule: sum_contributions.induct) (auto split: sum.splits)

lemma gradients_for_Cons:
  "gradients_for p ((q, g) # pgs) = (if q = p then g # gradients_for p pgs else gradients_for p pgs)"
  by (simp add: gradients_for_def)

lemma gradients_for_Nil [simp]: "gradients_for p [] = []"
  by (simp add: gradients_for_def)

lemma gradients_for_none: "p \<notin> fst ` set pgs \<Longrightarrow> gradients_for p pgs = []"
  by (auto simp: gradients_for_def filter_empty_conv)

lemma requires_grad_of_valid: "requires_grad_of st p \<Longrightarrow> p < length (heap st)"
  by (auto simp: requires_grad_of_def lookup_def split: if_splits)

lemma accumulate_sums:
  assumes "for_each accumulate pgs st = (r, st')"
  shows "only_grads st st'"
    and "\<not> requires_grad_of st p \<Longrightarrow> grad_of st' p = grad_of st p"
    and "r = None \<Longrightarrow> requires_grad_of st p
         \<Longrightarrow> sum_contributions (grad_of st p) (gradients_for p pgs) = Inr (grad_of st' p)"
    and "r = Some e \<Longrightarrow> \<exists>q. requires_grad_of st q
           \<and> sum_contributions (grad_of st q) (gradients_for q pgs) = Inl e"
proof -
  from assms only_grads_for_each [of accumulate st pgs, OF only_grads_accumulate]
  show "only_grads st st'" by simp
  have main: "(\<forall>p. \<not> requires_grad_of st p \<longrightarrow> grad_of st' p = grad_of st p)
      \<and> (r = None \<longrightarrow> (\<forall>p. requires_grad_of st p
            \<longrightarrow> sum_contributions (grad_of st p) (gradients_for p pgs) = Inr (grad_of st' p)))
      \<and> (\<forall>e. r = Some e \<longrightarrow> (\<exists>q. requires_grad_of st q
           \<and> sum_contributions (grad_of st q) (gradients_for q pgs) = Inl e))"
    using assms
  proof (induction pgs arbitrary: st)
    case Nil
    then show ?case by auto
  next
    case (Cons pg pgs)
    obtain q g where pg: "pg = (q, g)" by (cases pg)
    show ?case
    proof (cases "requires_grad_of st q")
      case False
      then have a: "accumulate pg st = (None, st)" by (simp add: accumulate_def pg)
      with Cons.prems have "for_each accumulate pgs st = (r, st')" by simp
      from Cons.IH [OF this] False show ?thesis
        by (auto simp: pg gradients_for_Cons)
    next
      case True
      then have qv: "q < length (heap st)" by (rule requires_grad_of_valid)
      show ?thesis
      proof (cases "grad_of st q")
        case None
        let ?s = "set_grad q g st"
        have a: "accumulate pg st = (None, ?s)" using True None by (simp add: accumulate_def pg)
        with Cons.prems have f: "for_each accumulate pgs ?s = (r, st')" by simp
        have o: "only_grads st ?s" by (simp add: set_grad_def only_grads_set_grad)
        have rg: "requires_grad_of ?s p = requires_grad_of st p" for p
          by (rule only_grads_of(2) [OF o])
        have gq: "grad_of ?s q = Some g" using qv by (simp add: grad_of_set_grad)
        have go: "p \<noteq> q \<Longrightarrow> grad_of ?s p = grad_of st p" for p by (simp add: grad_of_set_grad)
        note IH = Cons.IH [OF f, unfolded rg]
        show ?thesis
        proof (intro conjI allI impI)
          fix p assume "\<not> requires_grad_of st p"
          with IH True show "grad_of st' p = grad_of st p" by (metis go)
        next
          fix p assume "r = None" "requires_grad_of st p"
          with IH have s: "sum_contributions (grad_of ?s p) (gradients_for p pgs) = Inr (grad_of st' p)"
            by blast
          show "sum_contributions (grad_of st p) (gradients_for p (pg # pgs)) = Inr (grad_of st' p)"
          proof (cases "p = q")
            case True
            with s gq None show ?thesis by (simp add: pg gradients_for_Cons)
          next
            case False
            with s go [OF False] show ?thesis by (simp add: pg gradients_for_Cons)
          qed
        next
          fix e assume "r = Some e"
          with IH obtain p where p: "requires_grad_of st p"
            "sum_contributions (grad_of ?s p) (gradients_for p pgs) = Inl e" by blast
          show "\<exists>q. requires_grad_of st q
                 \<and> sum_contributions (grad_of st q) (gradients_for q (pg # pgs)) = Inl e"
          proof (cases "p = q")
            case True
            with p gq None show ?thesis by (auto simp: pg gradients_for_Cons intro!: exI [of _ q])
          next
            case False
            with p go [OF False] show ?thesis by (auto simp: pg gradients_for_Cons intro!: exI [of _ p])
          qed
        qed
      next
        case (Some old)
        show ?thesis
        proof (cases "np_add old g")
          case (Inl e)
          with True Some have a: "accumulate pg st = (Some e, st)" by (simp add: accumulate_def pg)
          with Cons.prems have r: "r = Some e" "st' = st" by simp_all
          have "sum_contributions (grad_of st q) (gradients_for q (pg # pgs)) = Inl e"
            using Some Inl by (simp add: pg gradients_for_Cons)
          with True r show ?thesis by auto
        next
          case (Inr s)
          let ?s = "set_grad q s st"
          have a: "accumulate pg st = (None, ?s)" using True Some Inr by (simp add: accumulate_def pg)
          with Cons.prems have f: "for_each accumulate pgs ?s = (r, st')" by simp
          have o: "only_grads st ?s" by (simp add: set_grad_def only_grads_set_grad)
          have rg: "requires_grad_of ?s p = requires_grad_of st p" for p
            by (rule only_grads_of(2) [OF o])
          have gq: "grad_of ?s q = Some s" using qv by (simp add: grad_of_set_grad)
          have go: "p \<noteq> q \<Longrightarrow> grad_of ?s p = grad_of st p" for p by (simp add: grad_of_set_grad)
          note IH = Cons.IH [OF f, unfolded rg]
          show ?thesis
          proof (intro conjI allI impI)
            fix p assume "\<not> requires_grad_of st p"
            with IH True show "grad_of st' p = grad_of st p" by (metis go)
          next
            fix p assume "r = None" "requires_grad_of st p"
            with IH have s: "sum_contributions (grad_of ?s p) (gradients_for p pgs) = Inr (grad_of st' p)"
              by blast
            show "sum_contributions (grad_of st p) (gradients_for p (pg # pgs)) = Inr (grad_of st' p)"
            proof (cases "p = q")
              case True
              with s gq Some Inr show ?thesis by (simp add: pg gradients_for_Cons)
            next
              case False
              with s go [OF False] show ?thesis by (simp add: pg gradients_for_Cons)
            qed
          next
            fix e assume "r = Some e"
            with IH obtain p where p: "requires_grad_of st p"
              "sum_contributions (grad_of ?s p) (gradients_for p pgs) = Inl e" by blast
            show "\<exists>q. requires_grad_of st q
                   \<and> sum_contributions (grad_of st q) (gradients_for q (pg # pgs)) = Inl e"
            proof (cases "p = q")
              case True
              with p gq Some Inr show ?thesis by (auto simp: pg gradients_for_Cons intro!: exI [of _ q])
            next
              case False
              with p go [OF False] show ?thesis by (auto simp: pg gradients_for_Cons intro!: exI [of _ p])
            qed
          qed
        qed
      qed
    qed
  qed
  from main show "\<not> requires_grad_of st p \<Longrightarrow> grad_of st' p = grad_of st p" by blast
  from main show "r = None \<Longrightarrow> requires_grad_of st p
         \<Longrightarrow> sum_contributions (grad_of st p) (gradients_for p pgs) = Inr (grad_of st' p)" by blast
  from main show "r = Some e \<Longrightarrow> \<exists>q. requires_grad_of st q
           \<and> sum_contributions (grad_of st q) (gradients_for q pgs) = Inl e" by blast
qed

lemma grad_fn_of_Some: "grad_fn_of st n = Some f \<Longrightarrow> \<exists>t. lookup st n = Some t \<and> grad_fn t = Some f"
  by (auto simp: grad_fn_of_def split: option.splits)

lemma process_node_skip:
  assumes "grad_fn_of st node = None \<or> grad_of st node = None"
  shows "process_node gf keep self node st = (None, st)"
  using assms
  by (auto simp: process_node_def grad_fn_of_def grad_of_def split: option.splits)

lemma process_node_raise:
  assumes "grad_fn_of st node = Some f" and "grad_of st node = Some g" and "gf f st node g = Inl e"
  shows "process_node gf keep self node st = (Some e, st)"
  using assms
  by (auto simp: process_node_def grad_fn_of_def grad_of_def split: option.splits)

lemma process_node_invoke:
  assumes "grad_fn_of st node = Some f" and "grad_of st node = Some g" and "gf f st node g = Inr gs"
  shows "process_node gf keep self node st =
     (case for_each accumulate (zip (parents_of st node) gs) st of
        (Some e, st') \<Rightarrow> (Some e, st')
      | (None, st') \<Rightarrow>
          if \<not> keep \<and> tensor_type_of st node = Some INTERMEDIATE \<and> node \<noteq> self
          then (None, modify node (\<lambda>t. t\<lparr>grad := None\<rparr>) st')
          else (None, st'))"
  using assms
  by (auto simp: process_node_def grad_fn_of_def grad_of_def parents_of_def tensor_type_of_def
      split: option.splits prod.splits)

lemma process_node_step:
  assumes f: "grad_fn_of st node = Some f" and g: "grad_of st node = Some g"
    and gs: "gf f st node g = Inr gs"
    and p: "process_node gf keep self node st = (r, st')"
    and pgs: "pgs = zip (parents_of st node) gs"
  shows "only_grads st st'"
    and "r = Some e \<Longrightarrow> e = BroadcastError \<and> (\<exists>q. requires_grad_of st q
           \<and> sum_contributions (grad_of st q) (gradients_for q pgs) = Inl e)"
    and "r = None \<Longrightarrow> \<not> keep \<and> tensor_type_of st node = Some INTERMEDIATE \<and> node \<noteq> self
           \<Longrightarrow> grad_of st' node = None"
    and "r = None \<Longrightarrow> q \<noteq> node \<or> keep \<or> tensor_type_of st node \<noteq> Some INTERMEDIATE \<or> node = self
           \<Longrightarrow> requires_grad_of st q
           \<Longrightarrow> sum_contributions (grad_of st q) (gradients_for q pgs) = Inr (grad_of st' q)"
    and "q \<noteq> node \<or> keep \<or> tensor_type_of st node \<noteq> Some INTERMEDIATE \<or> node = self
           \<Longrightarrow> \<not> requires_grad_of st q \<Longrightarrow> grad_of st' q = grad_of st q"
proof -
  from only_grads_process_node [of st gf keep self node] p show "only_grads st st'" by simp
  obtain r1 s1 where a: "for_each accumulate pgs st = (r1, s1)"
    by (cases "for_each accumulate pgs st")
  note acc = accumulate_sums [OF a]
  from f obtain t where t: "lookup st node = Some t" by (auto dest: grad_fn_of_Some)
  then have nv: "node < length (heap st)" by (auto simp: lookup_def split: if_splits)
  with only_gradsD(1) [OF acc(1)] have nv1: "node < length (heap s1)" by simp
  note inv = process_node_invoke [where gf = gf, OF f g gs, of keep self, folded pgs, unfolded a p]
  show "e = BroadcastError \<and> (\<exists>q. requires_grad_of st q
           \<and> sum_contributions (grad_of st q) (gradients_for q pgs) = Inl e)" if "r = Some e"
  proof -
    from that inv have r1: "r1 = Some e" by (cases r1) (auto split: if_splits)
    from acc(4) [OF r1] obtain q where q: "requires_grad_of st q"
      "sum_contributions (grad_of st q) (gradients_for q pgs) = Inl e" by blast
    from a r1 for_each_error [of accumulate "\<lambda>e. e = BroadcastError" pgs st e] accumulate_error
    have "e = BroadcastError" by fastforce
    with q show ?thesis by blast
  qed
  show "grad_of st' node = None"
    if "r = None" and c: "\<not> keep \<and> tensor_type_of st node = Some INTERMEDIATE \<and> node \<noteq> self"
  proof -
    from that inv have "st' = modify node (\<lambda>t. t\<lparr>grad := None\<rparr>) s1" by (cases r1) auto
    then show ?thesis using nv1 by (simp add: grad_of_modify)
  qed
  show "sum_contributions (grad_of st q) (gradients_for q pgs) = Inr (grad_of st' q)"
    if r: "r = None"
      and c: "q \<noteq> node \<or> keep \<or> tensor_type_of st node \<noteq> Some INTERMEDIATE \<or> node = self"
      and rq: "requires_grad_of st q"
  proof -
    from r inv have r1: "r1 = None" by (cases r1) auto
    from r1 inv c have "grad_of st' q = grad_of s1 q" by (auto simp: grad_of_modify split: if_splits)
    with acc(3) [OF r1 rq] show ?thesis by simp
  qed
  show "grad_of st' q = grad_of st q"
    if c: "q \<noteq> node \<or> keep \<or> tensor_type_of st node \<noteq> Some INTERMEDIATE \<or> node = self"
      and rq: "\<not> requires_grad_of st q"
  proof -
    from inv c have "grad_of st' q = grad_of s1 q"
      by (cases r1) (auto simp: grad_of_modify split: if_splits)
    with acc(2) [OF rq] show ?thesis by simp
  qed
qed

lemma np_add_same_shape: "nd_shape a = nd_shape b \<Longrightarrow> np_add a b = Inr (nd_zip (+) a b)"
  by (simp add: np_add_def)

lemma topo_order_requires_grad:
  assumes "parents_older st" and "n \<in> set (topo_order_of st out)"
  shows "requires_grad_of st n"
  using topo_order_of_spec(2) [OF assms(1), of out] assms(2)
  by (auto dest: grad_path_requires_grad)

lemma not_own_parent: "parents_older st \<Longrightarrow> n \<notin> set (parents_of st n)"
  by (auto dest: parents_older_less)

section \<open>The pass on the diamond\<close>

lemma well_formed_diamond: "well_formed diamond"
  by (simp add: diamond_eq well_formed_def refs_valid_def transposes_ok_def
      links_agree_def live_registered_def parents_older_def grad_fn_of_def parents_of_def
      children_of_def lookup_def)

lemma clear_stale_tensors_diamond: "clear_stale_tensors diamond = (None, diamond)"
  by (simp add: clear_stale_tensors_def clear_one_def stale_of_def lookup_def diamond_eq)

lemma diamond_first_turns:
  "for_each (process_node chain_rule False 4) [4, 3] (set_grad 4 (vec [1]) diamond)
     = (None, graded [Some (vec [4]), None, Some (vec [1]), None, Some (vec [1])] diamond)"
  by code_simp

lemma diamond_third_turn:
  "process_node chain_rule False 4 2
      (graded [Some (vec [4]), None, Some (vec [1]), None, Some (vec [1])] diamond)
     = (None, graded [Some (vec [6]), None, None, None, Some (vec [1])] diamond)"
  by code_simp

section \<open>Gradients kept and gradients cleared\<close>

lemma grad_kept_accumulate:
  "grad_of st p \<noteq> None \<Longrightarrow> grad_of (snd (accumulate pg st)) p \<noteq> None"
  by (auto simp: accumulate_def grad_of_set_grad split: prod.splits option.splits sum.splits)

lemma grad_kept_accumulates:
  "grad_of st p \<noteq> None \<Longrightarrow> grad_of (snd (for_each accumulate pgs st)) p \<noteq> None"
proof (induction pgs arbitrary: st)
  case Nil
  then show ?case by simp
next
  case (Cons pg pgs)
  obtain r st' where a: "accumulate pg st = (r, st')" by (cases "accumulate pg st")
  with grad_kept_accumulate [OF Cons.prems, of pg] have k: "grad_of st' p \<noteq> None" by simp
  show ?case
  proof (cases r)
    case None
    with a Cons.IH [OF k] show ?thesis by simp
  next
    case (Some e)
    with a k show ?thesis by simp
  qed
qed

lemma grad_kept_turn:
  assumes g: "grad_of st p \<noteq> None"
    and c: "p \<noteq> node \<or> keep \<or> node = self \<or> tensor_type_of st node \<noteq> Some INTERMEDIATE
            \<or> grad_fn_of st node = None"
  shows "grad_of (snd (process_node gf keep self node st)) p \<noteq> None"
proof (cases "grad_fn_of st node = None \<or> grad_of st node = None")
  case True
  from process_node_skip [OF True, of gf keep self] g show ?thesis by simp
next
  case False
  then obtain f g' where f: "grad_fn_of st node = Some f" and g': "grad_of st node = Some g'"
    by auto
  show ?thesis
  proof (cases "gf f st node g'")
    case (Inl e)
    from process_node_raise [where gf = gf, OF f g' Inl, of keep self] g show ?thesis by simp
  next
    case (Inr gs)
    obtain r s1 where a: "for_each accumulate (zip (parents_of st node) gs) st = (r, s1)"
      by (cases "for_each accumulate (zip (parents_of st node) gs) st")
    with grad_kept_accumulates [OF g, of "zip (parents_of st node) gs"]
    have k: "grad_of s1 p \<noteq> None" by simp
    from process_node_invoke [where gf = gf, OF f g' Inr, of keep self, unfolded a] k c f
    show ?thesis by (cases r) (auto simp: grad_of_modify)
  qed
qed

lemma grad_kept_pass:
  assumes "only_grads st0 st" and "grad_of st p \<noteq> None"
    and "p \<notin> set xs \<or> keep \<or> p = self \<or> tensor_type_of st0 p \<noteq> Some INTERMEDIATE
         \<or> grad_fn_of st0 p = None"
  shows "grad_of (snd (for_each (process_node gf keep self) xs st)) p \<noteq> None"
  using assms
proof (induction xs arbitrary: st)
  case Nil
  then show ?case by simp
next
  case (Cons n xs)
  obtain r st' where p: "process_node gf keep self n st = (r, st')"
    by (cases "process_node gf keep self n st")
  from only_grads_process_node [of st gf keep self n] p have o: "only_grads st st'" by simp
  have "p \<noteq> n \<or> keep \<or> n = self \<or> tensor_type_of st n \<noteq> Some INTERMEDIATE
          \<or> grad_fn_of st n = None"
    using Cons.prems(3)
    by (auto simp: only_grads_of(4) [OF Cons.prems(1)] only_grads_of(3) [OF Cons.prems(1)])
  from grad_kept_turn [OF Cons.prems(2) this, of gf] p have k: "grad_of st' p \<noteq> None" by simp
  show ?case
  proof (cases r)
    case None
    have "grad_of (snd (for_each (process_node gf keep self) xs st')) p \<noteq> None"
      using Cons.prems(3) by (intro Cons.IH only_grads_trans [OF Cons.prems(1) o] k) auto
    with None p show ?thesis by simp
  next
    case (Some e)
    with p k show ?thesis by simp
  qed
qed

lemma parents_first_prefix:
  assumes f: "parents_first st (as @ bs)" and m: "m \<in> set as"
    and p: "p \<in> set (parents_of st m)" and r: "requires_grad_of st p"
  shows "p \<in> set as"
proof -
  from m obtain k where k: "k < length as" "as ! k = m" by (auto simp: in_set_conv_nth)
  then have "k < length (as @ bs)" "(as @ bs) ! k = m" by (simp_all add: nth_append)
  with f p r have "p \<in> set (take k (as @ bs))" unfolding parents_first_def by blast
  with k(1) show ?thesis by (auto dest: in_set_takeD)
qed

lemma cleared_in_pass:
  assumes po: "parents_older st0" and o: "only_grads st0 st"
    and xs: "xs = rev (topo_order_of st0 self)"
    and n: "n \<in> set xs" "n \<noteq> self" "tensor_type_of st0 n = Some INTERMEDIATE"
       "grad_fn_of st0 n \<noteq> None"
    and ok: "for_each (process_node gf False self) xs st = (None, st')"
  shows "grad_of st' n = None"
proof -
  let ?P = "process_node gf False self"
  note spec = topo_order_of_spec [OF po, of self]
  from n(1) obtain ys zs where split: "xs = ys @ n # zs" by (auto dest: split_list)
  obtain r1 s1 where 1: "for_each ?P ys st = (r1, s1)" by (cases "for_each ?P ys st")
  obtain r2 s2 where 2: "?P n s1 = (r2, s2)" by (cases "?P n s1")
  from ok have r1: "r1 = None" unfolding split for_each_append 1 by (cases r1) auto
  from ok r1 have r2: "r2 = None" unfolding split for_each_append 1 using 2 by (cases r2) auto
  from ok r1 r2 have 3: "for_each ?P zs s2 = (None, st')"
    unfolding split for_each_append 1 using 2 by simp
  from only_grads_pass [of st gf False self ys] 1 have "only_grads st s1" by simp
  with o have o1: "only_grads st0 s1" by (rule only_grads_trans)
  from only_grads_process_node [of s1 gf False self n] 2 have "only_grads s1 s2" by simp
  with o1 have o2: "only_grads st0 s2" by (rule only_grads_trans)
  have ty: "tensor_type_of s1 n = Some INTERMEDIATE" using n(3) by (simp add: only_grads_of(4) [OF o1])
  from n(4) obtain f where f: "grad_fn_of s1 n = Some f" by (auto simp: only_grads_of(3) [OF o1])
  have here: "grad_of s2 n = None"
  proof (cases "grad_of s1 n")
    case None
    then have "grad_fn_of s1 n = None \<or> grad_of s1 n = None" by simp
    from process_node_skip [OF this, of gf False self] 2 None show ?thesis by simp
  next
    case (Some g)
    show ?thesis
    proof (cases "gf f s1 n g")
      case (Inl e)
      from process_node_raise [where gf = gf, OF f Some Inl, of False self] 2 r2 show ?thesis by simp
    next
      case (Inr gs)
      show ?thesis
        by (rule process_node_step(3) [where gf = gf, OF f Some Inr 2 refl r2]) (use ty n(2) in simp)
    qed
  qed
  have topo: "topo_order_of st0 self = rev zs @ n # rev ys"
    using arg_cong [OF split, of rev] by (simp add: xs)
  have nz: "n \<notin> set zs" using spec(1) by (simp add: topo)
  have rn: "requires_grad_of st0 n"
    by (rule topo_order_requires_grad [OF po, of n self]) (simp add: topo)
  have "grad_of (snd (for_each ?P zs s2)) n = grad_of s2 n"
  proof (rule grad_of_pass_other [OF o2])
    fix m assume "m \<in> set zs"
    then have m: "m \<in> set (rev zs)" by simp
    show "n \<notin> set (parents_of st0 m)"
    proof
      assume "n \<in> set (parents_of st0 m)"
      from parents_first_prefix [OF spec(3) [unfolded topo] m this rn] nz show False by simp
    qed
  qed (use nz in simp)
  with 3 here show ?thesis by simp
qed

lemma same_but_links_grad: "same_but_links t t' \<Longrightarrow> grad t' = grad t"
  unfolding same_but_links_def by (drule arg_cong [of _ _ grad]) simp

lemma clear_stale_tensors_grad_of:
  assumes "well_formed st"
  shows "grad_of (snd (clear_stale_tensors st)) n = grad_of st n"
proof -
  from clear_stale_tensors_reclaimed [OF assms] obtain st' where
    c: "clear_stale_tensors st = (None, st')"
    and r: "reclaimed {s \<in> set (registry st). stale_of st s} st st'"
    by blast
  from reclaimedD(1) [OF r] reclaimedD(3) [OF r, of n] c show ?thesis
    by (auto simp: grad_of_def lookup_def dest: same_but_links_grad)
qed

lemma backward_diamond:
  "backward chain_rule 4 None False diamond
     = (None, graded [Some (vec [6]), None, None, None, Some (vec [1])] diamond)"
proof -
  have t: "lookup diamond 4 = Some (heap diamond ! 4)" by (simp add: lookup_def diamond_eq)
  have rg: "requires_grad (heap diamond ! 4)" by (simp add: diamond_eq)
  have ok: "(None :: int ndarray option) \<noteq> None \<or> nd_size (data (heap diamond ! 4)) = 1"
    by (simp add: diamond_eq nd_size_def vec_def)
  have seed: "(case (None :: int ndarray option) of
                 None \<Rightarrow> ones_like (data (heap diamond ! 4)) | Some g \<Rightarrow> g) = vec [1]"
    by (simp add: diamond_eq nd_size_def vec_def ones_like_def)
  have last: "process_node chain_rule False 4 0
                (graded [Some (vec [6]), None, None, None, Some (vec [1])] diamond)
              = (None, graded [Some (vec [6]), None, None, None, Some (vec [1])] diamond)"
    by (rule process_node_skip) (simp add: grad_fn_of_def graded_def diamond_eq lookup_def)
  have "for_each (process_node chain_rule False 4) ([4, 3] @ [2, 0]) (set_grad 4 (vec [1]) diamond)
          = (None, graded [Some (vec [6]), None, None, None, Some (vec [1])] diamond)"
    unfolding for_each_append diamond_first_turns by (simp add: diamond_third_turn last)
  then show ?thesis
    unfolding backward_pass_eq [OF clear_stale_tensors_diamond t rg ok] seed topo_order_of_diamond
    by simp
qed

lemma backward_diamond_keep:
  "backward chain_rule 4 None True diamond
     = (None, graded [Some (vec [6]), None, Some (vec [1]), Some (vec [1]), Some (vec [1])] diamond)"
  by code_simp

section \<open>Reflected subtraction\<close>

text \<open>
  C10. For a tensor \<open>a\<close> and a number \<open>s\<close>, the reflected subtraction \<^verbatim>\<open>s - a\<close> is
  \<^verbatim>\<open>a.__rsub__(s)\<close>, which does what \<^verbatim>\<open>a - s\<close> does: the new node is the next address, and
  its buffer holds \<open>x - s\<close> for every element \<open>x\<close> of \<open>a\<close>, not \<open>s - x\<close>.
\<close>

theorem rsub_scalar_is_tensor_minus_scalar:
  assumes "lookup st a = Some t"
  shows "Tensor_rsub a (ScalarArg s) st = Tensor_sub a (ScalarArg s) st
       \<and> fst (Tensor_rsub a (ScalarArg s) st) = Inr (length (heap st))
       \<and> data_of (snd (Tensor_rsub a (ScalarArg s) st)) (length (heap st))
           = Some (nd_map (\<lambda>x. x - s) (data t))"
  using assms
  by (simp add: Tensor_rsub_def Tensor_sub_def binary_op_scalar data_of_create_node_new)

text \<open>
  With \<^verbatim>\<open>a = Tensor([5.0], PARAMETER)\<close>, \<^verbatim>\<open>2 - a\<close> is a node holding \<open>[3]\<close>, and \<open>2 - 5\<close> is
  not \<open>3\<close>.
\<close>

theorem rsub_scalar_is_tensor_minus_scalar_witness:
  "lookup one_leaf 0 \<noteq> None
   \<and> fst (Tensor_rsub 0 (ScalarArg 2) one_leaf) = Inr 1
   \<and> data_of (snd (Tensor_rsub 0 (ScalarArg 2) one_leaf)) 1 = Some (vec [3])
   \<and> vec [3] \<noteq> nd_map (\<lambda>x. 2 - x) (vec [5 :: int])"
proof -
  let ?t = "\<lparr>data = vec [5 :: int], shape = [1], grad_fn = None, grad = None, children = [],
             parents = [], stale = False, extra = [], version = 0,
             tensor_type = PARAMETER, requires_grad = True\<rparr>"
  have h: "lookup one_leaf 0 = Some ?t"
    by (simp add: one_leaf_eq lookup_def)
  have len: "length (heap one_leaf) = 1"
    by (simp add: one_leaf_eq)
  show ?thesis
    using rsub_scalar_is_tensor_minus_scalar [OF h, of 2, THEN conjunct2] h
    by (simp add: len vec_def nd_map_def)
qed

section \<open>Preconditions of the operations\<close>

text \<open>
  C7. An operation whose precondition is violated raises and leaves the graph as it was:
  the state it returns is the state it was given, so there is no new node, no new entry of
  the registry and no longer list of children. That is so for tensors of unequal shapes
  under \<^verbatim>\<open>+\<close>, \<^verbatim>\<open>-\<close> and \<^verbatim>\<open>*\<close>, for a right operand of \<^verbatim>\<open>@\<close> that is no tensor, for an operand
  of \<^verbatim>\<open>@\<close> of fewer than two dimensions, for inner dimensions that differ, and for a
  \<^verbatim>\<open>reshape\<close> that changes the number of elements; and whatever makes one of these
  operations raise, the state is unchanged.
\<close>

theorem violated_precondition_raises_and_changes_nothing:
  assumes "lookup st a = Some t" and "lookup st b = Some u"
  shows "(shape t \<noteq> shape u \<longrightarrow>
            Tensor_add a (TensorArg b) st = (Inl (ValueError ''Shape mismatch for addition''), st)
          \<and> Tensor_sub a (TensorArg b) st = (Inl (ValueError ''Shape mismatch for subtraction''), st)
          \<and> Tensor_mul a (TensorArg b) st = (Inl (ValueError ''Shape mismatch for multiplication''), st))
       \<and> Tensor_matmul mm a (ScalarArg s) st
           = (Inl (TypeError ''Right operand must be a Tensor for matrix multiplication.''), st)
       \<and> (length (shape t) < 2 \<or> length (shape u) < 2 \<longrightarrow>
            Tensor_matmul mm a (TensorArg b) st
              = (Inl (ValueError ''Matrix multiplication requires at least 2D tensors.''), st))
       \<and> (2 \<le> length (shape t) \<and> 2 \<le> length (shape u) \<and> last (shape t) \<noteq> last (butlast (shape u)) \<longrightarrow>
            Tensor_matmul mm a (TensorArg b) st = (Inl (ValueError ''Matrix shapes not aligned''), st))
       \<and> (prod_list new_shape \<noteq> prod_list (shape t) \<longrightarrow>
            Tensor_reshape a new_shape st
              = (Inl (ValueError ''New shape must have the same number of elements as the original shape.''), st))
       \<and> (\<forall>other e. fst (Tensor_add a other st) = Inl e \<longrightarrow> snd (Tensor_add a other st) = st)
       \<and> (\<forall>other e. fst (Tensor_sub a other st) = Inl e \<longrightarrow> snd (Tensor_sub a other st) = st)
       \<and> (\<forall>other e. fst (Tensor_mul a other st) = Inl e \<longrightarrow> snd (Tensor_mul a other st) = st)
       \<and> (\<forall>other e. fst (Tensor_matmul mm a other st) = Inl e \<longrightarrow> snd (Tensor_matmul mm a other st) = st)
       \<and> (\<forall>e. fst (Tensor_reshape a new_shape st) = Inl e \<longrightarrow> snd (Tensor_reshape a new_shape st) = st)"
proof -
  have ops: "shape t \<noteq> shape u \<Longrightarrow>
            Tensor_add a (TensorArg b) st = (Inl (ValueError ''Shape mismatch for addition''), st)
          \<and> Tensor_sub a (TensorArg b) st = (Inl (ValueError ''Shape mismatch for subtraction''), st)
          \<and> Tensor_mul a (TensorArg b) st = (Inl (ValueError ''Shape mismatch for multiplication''), st)"
    using assms by (simp add: Tensor_add_def Tensor_sub_def Tensor_mul_def binary_op_mismatch)
  have mm1: "Tensor_matmul mm a (ScalarArg s) st
           = (Inl (TypeError ''Right operand must be a Tensor for matrix multiplication.''), st)"
    using assms by (simp add: Tensor_matmul_def)
  have mm2: "length (shape t) < 2 \<or> length (shape u) < 2 \<Longrightarrow>
            Tensor_matmul mm a (TensorArg b) st
              = (Inl (ValueError ''Matrix multiplication requires at least 2D tensors.''), st)"
    using assms by (simp add: Tensor_matmul_def)
  have mm3: "2 \<le> length (shape t) \<and> 2 \<le> length (shape u) \<and> last (shape t) \<noteq> last (butlast (shape u)) \<Longrightarrow>
            Tensor_matmul mm a (TensorArg b) st = (Inl (ValueError ''Matrix shapes not aligned''), st)"
    using assms by (simp add: Tensor_matmul_def)
  have rs: "prod_list new_shape \<noteq> prod_list (shape t) \<Longrightarrow>
            Tensor_reshape a new_shape st
              = (Inl (ValueError ''New shape must have the same number of elements as the original shape.''), st)"
    using assms by (simp add: Tensor_reshape_def)
  show ?thesis
    using ops mm1 mm2 mm3 rs
    by (intro conjI impI allI)
       (simp_all add: Tensor_add_def Tensor_sub_def Tensor_mul_def binary_op_failure
          Tensor_matmul_failure Tensor_reshape_failure)
qed

text \<open>
  On the four leaves: \<^verbatim>\<open>[1, 2, 3] + [[1, 2], [3, 4]]\<close>, \<^verbatim>\<open>[1, 2, 3] @ 7\<close>,
  \<^verbatim>\<open>[1, 2, 3] @ [[1, 2], [3, 4]]\<close>, \<^verbatim>\<open>[[1, 2, 3]] @ [[1, 2], [3, 4]]\<close> and
  \<^verbatim>\<open>[1, 2, 3].reshape((2, 3))\<close> raise, and the four leaves are as they were.
\<close>

theorem violated_precondition_raises_and_changes_nothing_witness:
  "lookup four_leaves 0 \<noteq> None \<and> lookup four_leaves 1 \<noteq> None \<and> lookup four_leaves 2 \<noteq> None
   \<and> Tensor_add 0 (TensorArg 1) four_leaves
       = (Inl (ValueError ''Shape mismatch for addition''), four_leaves)
   \<and> Tensor_sub 0 (TensorArg 1) four_leaves
       = (Inl (ValueError ''Shape mismatch for subtraction''), four_leaves)
   \<and> Tensor_mul 0 (TensorArg 1) four_leaves
       = (Inl (ValueError ''Shape mismatch for multiplication''), four_leaves)
   \<and> Tensor_matmul (\<lambda>x y. Inr x) 0 (ScalarArg 7) four_leaves
       = (Inl (TypeError ''Right operand must be a Tensor for matrix multiplication.''), four_leaves)
   \<and> Tensor_matmul (\<lambda>x y. Inr x) 0 (TensorArg 1) four_leaves
       = (Inl (ValueError ''Matrix multiplication requires at least 2D tensors.''), four_leaves)
   \<and> Tensor_matmul (\<lambda>x y. Inr x) 2 (TensorArg 1) four_leaves
       = (Inl (ValueError ''Matrix shapes not aligned''), four_leaves)
   \<and> Tensor_reshape 0 [2, 3] four_leaves
       = (Inl (ValueError ''New shape must have the same number of elements as the original shape.''),
          four_leaves)"
proof -
  have l0: "lookup four_leaves 0 = Some (heap four_leaves ! 0)"
    and l1: "lookup four_leaves 1 = Some (heap four_leaves ! 1)"
    and l2: "lookup four_leaves 2 = Some (heap four_leaves ! 2)"
    by (simp_all add: lookup_def four_leaves_eq)
  have s: "shape (heap four_leaves ! 0) = [3]" "shape (heap four_leaves ! 1) = [2, 2]"
    "shape (heap four_leaves ! 2) = [1, 3]"
    by (simp_all add: four_leaves_eq)
  note w01 = violated_precondition_raises_and_changes_nothing
               [OF l0 l1, where mm = "\<lambda>x y. Inr x" and s = 7 and new_shape = "[2, 3]",
                unfolded s]
  note w21 = violated_precondition_raises_and_changes_nothing
               [OF l2 l1, where mm = "\<lambda>x y. Inr x" and s = 7 and new_shape = "[2, 3]",
                unfolded s]
  have ops: "Tensor_add 0 (TensorArg 1) four_leaves
               = (Inl (ValueError ''Shape mismatch for addition''), four_leaves)
             \<and> Tensor_sub 0 (TensorArg 1) four_leaves
               = (Inl (ValueError ''Shape mismatch for subtraction''), four_leaves)
             \<and> Tensor_mul 0 (TensorArg 1) four_leaves
               = (Inl (ValueError ''Shape mismatch for multiplication''), four_leaves)"
    using w01 [THEN conjunct1] by simp
  have mm1: "Tensor_matmul (\<lambda>x y. Inr x) 0 (ScalarArg 7) four_leaves
       = (Inl (TypeError ''Right operand must be a Tensor for matrix multiplication.''), four_leaves)"
    using w01 [THEN conjunct2, THEN conjunct1] .
  have mm2: "Tensor_matmul (\<lambda>x y. Inr x) 0 (TensorArg 1) four_leaves
       = (Inl (ValueError ''Matrix multiplication requires at least 2D tensors.''), four_leaves)"
    using w01 [THEN conjunct2, THEN conjunct2, THEN conjunct1] by simp
  have mm3: "Tensor_matmul (\<lambda>x y. Inr x) 2 (TensorArg 1) four_leaves
       = (Inl (ValueError ''Matrix shapes not aligned''), four_leaves)"
    using w21 [THEN conjunct2, THEN conjunct2, THEN conjunct2, THEN conjunct1] by simp
  have rs: "Tensor_reshape 0 [2, 3] four_leaves
       = (Inl (ValueError ''New shape must have the same number of elements as the original shape.''),
          four_leaves)"
    using w01 [THEN conjunct2, THEN conjunct2, THEN conjunct2, THEN conjunct2, THEN conjunct1]
    by simp
  show ?thesis
    using ops mm1 mm2 mm3 rs l0 l1 l2 by simp
qed

section \<open>The flag \<open>requires_grad\<close>\<close>

text \<open>
  C6. \<^verbatim>\<open>requires_grad\<close> is fixed when the tensor is made. A tensor made by the constructor
  requires gradients exactly when its type is \<^verbatim>\<open>PARAMETER\<close>; a node made by \<^verbatim>\<open>_create_node\<close>
  requires them exactly when one of its parents does; and no operation of the module (the
  constructor, \<^verbatim>\<open>_create_node\<close>, the operators, \<^verbatim>\<open>T\<close>, \<^verbatim>\<open>reshape\<close>, the setter of \<^verbatim>\<open>grad\<close>,
  \<^verbatim>\<open>clear_stale_tensors\<close>, \<^verbatim>\<open>backward\<close>) changes the flag of a tensor that exists.
\<close>

theorem requires_grad_fixed_at_construction:
  "requires_grad_of (snd (Tensor_init d ty st)) (fst (Tensor_init d ty st)) = (ty = PARAMETER)
   \<and> requires_grad_of (snd (create_node d gfn ps ex st)) (fst (create_node d gfn ps ex st))
       = (\<exists>p \<in> set ps. requires_grad_of st p)
   \<and> keeps requires_grad st (snd (Tensor_init d ty st))
   \<and> keeps requires_grad st (snd (create_node d gfn ps ex st))
   \<and> keeps requires_grad st (snd (Tensor_T a st))
   \<and> keeps requires_grad st (snd (Tensor_add a other st))
   \<and> keeps requires_grad st (snd (Tensor_radd a other st))
   \<and> keeps requires_grad st (snd (Tensor_sub b other' st))
   \<and> keeps requires_grad st (snd (Tensor_rsub b other' st))
   \<and> keeps requires_grad st (snd (Tensor_mul c other'' st))
   \<and> keeps requires_grad st (snd (Tensor_rmul c other'' st))
   \<and> keeps requires_grad st (snd (Tensor_matmul mm a other st))
   \<and> keeps requires_grad st (snd (Tensor_neg n st))
   \<and> keeps requires_grad st (snd (Tensor_reshape a new_shape st))
   \<and> keeps requires_grad st (set_grad a v st)
   \<and> keeps requires_grad st (snd (clear_stale_tensors st))
   \<and> keeps requires_grad st (snd (backward gf a gradient keep_grads st))"
proof -
  have new: "requires_grad_of (snd (create_node d gfn ps ex st)) (fst (create_node d gfn ps ex st))
       = (\<exists>p \<in> set ps. requires_grad_of st p)"
    by (simp add: requires_grad_of_def lookup_create_node add_children_def new_node_def)
  have init: "requires_grad_of (snd (Tensor_init d ty st)) (fst (Tensor_init d ty st)) = (ty = PARAMETER)"
    by (simp add: Tensor_init_eq requires_grad_of_def lookup_def)
  show ?thesis
    by (intro conjI new init keeps_Tensor_init keeps_create_node keeps_Tensor_T keeps_Tensor_matmul
        keeps_Tensor_neg keeps_Tensor_reshape keeps_set_grad keeps_clear_stale_tensors keeps_backward)
       (simp_all add: Tensor_add_def Tensor_radd_def Tensor_sub_def Tensor_rsub_def Tensor_mul_def
          Tensor_rmul_def keeps_binary_op)
qed

text \<open>
  A parameter requires gradients and an input does not; a node made from the parameter
  requires them; and the parameter still does after \<^verbatim>\<open>T\<close>, after the reclaimer and after
  \<^verbatim>\<open>backward\<close>.
\<close>

theorem requires_grad_fixed_at_construction_witness:
  "requires_grad_of (snd (Tensor_init (vec [5 :: int]) PARAMETER initial_state)) 0
   \<and> \<not> requires_grad_of (snd (Tensor_init (vec [5 :: int]) INPUT initial_state)) 0
   \<and> requires_grad_of (snd (create_node (vec [6]) (Some add_scalar_backward) [0] [] one_leaf)) 1
   \<and> requires_grad_of (snd (create_node (vec [6]) (Some add_scalar_backward) [0] [] one_leaf)) 0
   \<and> requires_grad_of (snd (Tensor_T 0 one_leaf)) 0
   \<and> requires_grad_of (snd (clear_stale_tensors one_leaf)) 0
   \<and> requires_grad_of (snd (backward no_gradients 0 None False one_leaf)) 0"
proof -
  have len: "length (heap one_leaf) = 1" "length (heap (initial_state :: int state)) = 0"
    by (simp_all add: one_leaf_eq initial_state_def)
  have rg: "requires_grad_of one_leaf 0"
    by (simp add: requires_grad_of_def lookup_def one_leaf_eq)
  note a = requires_grad_fixed_at_construction
             [where st = "initial_state :: int state" and d = "vec [5]" and ty = PARAMETER]
  note b = requires_grad_fixed_at_construction
             [where st = "initial_state :: int state" and d = "vec [5]" and ty = INPUT]
  note c = requires_grad_fixed_at_construction
             [where st = one_leaf and d = "vec [6]" and gfn = "Some add_scalar_backward"
                and ps = "[0]" and ex = "[]" and a = 0 and gf = no_gradients
                and gradient = None and keep_grads = False]
  have i1: "requires_grad_of (snd (Tensor_init (vec [5 :: int]) PARAMETER initial_state)) 0"
    using a [THEN conjunct1] by (simp add: Tensor_init_eq len)
  have i2: "\<not> requires_grad_of (snd (Tensor_init (vec [5 :: int]) INPUT initial_state)) 0"
    using b [THEN conjunct1] by (simp add: Tensor_init_eq len)
  have new: "requires_grad_of (snd (create_node (vec [6]) (Some add_scalar_backward) [0] [] one_leaf)) 1"
    using c [THEN conjunct2, THEN conjunct1] rg by (simp add: len)
  have kept: "keeps requires_grad one_leaf st' \<Longrightarrow> requires_grad_of st' 0" for st'
    using requires_grad_of_keeps [of one_leaf st' 0] rg by (simp add: len)
  have k1: "keeps requires_grad one_leaf (snd (create_node (vec [6]) (Some add_scalar_backward) [0] [] one_leaf))"
    and k2: "keeps requires_grad one_leaf (snd (Tensor_T 0 one_leaf))"
    and k3: "keeps requires_grad one_leaf (snd (clear_stale_tensors one_leaf))"
    and k4: "keeps requires_grad one_leaf (snd (backward no_gradients 0 None False one_leaf))"
    using c by blast+
  show ?thesis
    using i1 i2 new kept [OF k1] kept [OF k2] kept [OF k3] kept [OF k4] by simp
qed

section \<open>The checks of \<open>backward\<close>\<close>

text \<open>
  C5, as the code has it. In a well-formed graph the reclaimer does not raise, and \<open>st0\<close> is
  the state it leaves; \<open>t\<close> is the output there. The gradient functions belong to another
  module and are a parameter \<open>gf\<close> of the pass; they are taken not to raise either of the two
  exceptions of the checks, so that the exception tells which check failed. Then

  \<^item> \<^verbatim>\<open>backward\<close> raises the exception of the first check exactly when the output does not
    require gradients;
  \<^item> it raises the exception of the second check exactly when the first check passed, no
    gradient was given and the buffer of the output does not hold exactly one element (a
    buffer of several elements, and a buffer of none);
  \<^item> a call that fails one of the checks returns \<open>st0\<close>: the reclaimer has run, and nothing
    else has;
  \<^item> a call that passes both is the loop over the reversed topological order of \<open>st0\<close>, from
    \<open>st0\<close> with the seed in the \<^verbatim>\<open>_grad\<close> of the output; whatever the loop does, its final state
    differs from \<open>st0\<close> in \<^verbatim>\<open>_grad\<close> slots only, and the \<^verbatim>\<open>_grad\<close> of the output is the seed;
  \<^item> with no gradient given, the seed has the shape of the output's buffer and every element
    of it is one.
\<close>

theorem backward_reclaims_then_checks:
  assumes wf: "well_formed st"
    and st0: "st0 = snd (clear_stale_tensors st)"
    and t: "lookup st0 self = Some t"
    and gf: "\<forall>f s n g. gf f s n g \<noteq> Inl GradientNotRequired
                      \<and> gf f s n g \<noteq> Inl NonScalarImplicitGradient"
    and seed: "seed = (case gradient of None \<Rightarrow> ones_like (data t) | Some g \<Rightarrow> g)"
    and result: "result = backward gf self gradient keep_grads st"
  shows "fst (clear_stale_tensors st) = None
       \<and> (fst result = Some GradientNotRequired) = (\<not> requires_grad t)
       \<and> (fst result = Some NonScalarImplicitGradient)
           = (requires_grad t \<and> gradient = None \<and> nd_size (data t) \<noteq> 1)
       \<and> (\<not> requires_grad t \<or> (gradient = None \<and> nd_size (data t) \<noteq> 1) \<longrightarrow> snd result = st0)
       \<and> (requires_grad t \<and> (gradient \<noteq> None \<or> nd_size (data t) = 1) \<longrightarrow>
             result = for_each (process_node gf keep_grads self) (rev (topo_order_of st0 self))
                        (set_grad self seed st0)
           \<and> only_grads st0 (snd result)
           \<and> grad_of (snd result) self = Some seed)
       \<and> (gradient = None \<longrightarrow>
             nd_shape seed = nd_shape (data t) \<and> nd_elems seed = replicate (nd_size (data t)) 1)"
proof -
  note cw = clear_stale_tensors_well_formed [OF wf]
  from cw(1) have c: "clear_stale_tensors st = (None, st0)"
    by (simp add: st0 prod_eq_iff)
  from cw(2) have po: "parents_older st0" by (simp add: st0 well_formedD)
  from t have sv: "self < length (heap st0)" by (auto simp: lookup_def split: if_splits)
  have distinct_errors: "GradientNotRequired \<noteq> NonScalarImplicitGradient"
    "GradientNotRequired \<noteq> BroadcastError" "NonScalarImplicitGradient \<noteq> BroadcastError"
    by (simp_all add: GradientNotRequired_def NonScalarImplicitGradient_def BroadcastError_def)
  have fail1: "result = (Some GradientNotRequired, st0)" if "\<not> requires_grad t"
    using that c t by (simp add: result backward_def GradientNotRequired_def)
  have fail2: "result = (Some NonScalarImplicitGradient, st0)"
    if "requires_grad t" "gradient = None" "nd_size (data t) \<noteq> 1"
    using that c t by (simp add: result backward_def NonScalarImplicitGradient_def)
  have pass: "result = for_each (process_node gf keep_grads self) (rev (topo_order_of st0 self))
                        (set_grad self seed st0)"
    if "requires_grad t" "gradient \<noteq> None \<or> nd_size (data t) = 1"
    unfolding result seed by (rule backward_pass_eq [OF c t that])
  have pass_err: "fst result \<noteq> Some GradientNotRequired \<and> fst result \<noteq> Some NonScalarImplicitGradient"
    if "requires_grad t" "gradient \<noteq> None \<or> nd_size (data t) = 1"
  proof -
    have "e \<noteq> GradientNotRequired \<and> e \<noteq> NonScalarImplicitGradient" if "fst result = Some e" for e
      using pass_error [of gf keep_grads self "rev (topo_order_of st0 self)"
                           "set_grad self seed st0" e]
        that gf distinct_errors
      unfolding pass [OF \<open>requires_grad t\<close> \<open>gradient \<noteq> None \<or> nd_size (data t) = 1\<close>, symmetric]
      by metis
    then show ?thesis by blast
  qed
  have e1: "(fst result = Some GradientNotRequired) = (\<not> requires_grad t)"
  proof (cases "requires_grad t")
    case False
    with fail1 show ?thesis by simp
  next
    case True
    show ?thesis
    proof (cases "gradient = None \<and> nd_size (data t) \<noteq> 1")
      case True
      with fail2 \<open>requires_grad t\<close> distinct_errors show ?thesis by simp
    next
      case False
      with pass_err [OF True] True show ?thesis by auto
    qed
  qed
  have e2: "(fst result = Some NonScalarImplicitGradient)
           = (requires_grad t \<and> gradient = None \<and> nd_size (data t) \<noteq> 1)"
  proof (cases "requires_grad t")
    case False
    with fail1 distinct_errors show ?thesis by simp
  next
    case True
    show ?thesis
    proof (cases "gradient = None \<and> nd_size (data t) \<noteq> 1")
      case True
      with fail2 \<open>requires_grad t\<close> show ?thesis by simp
    next
      case False
      with pass_err [OF True] True show ?thesis by auto
    qed
  qed
  have unchanged: "snd result = st0"
    if "\<not> requires_grad t \<or> (gradient = None \<and> nd_size (data t) \<noteq> 1)"
    using that fail1 fail2 by (cases "requires_grad t") auto
  have seeded: "only_grads st0 (snd result) \<and> grad_of (snd result) self = Some seed"
    if rg: "requires_grad t" and ok: "gradient \<noteq> None \<or> nd_size (data t) = 1"
  proof -
    let ?st1 = "set_grad self seed st0"
    have o1: "only_grads st0 ?st1" by (simp add: set_grad_def only_grads_set_grad)
    have "only_grads ?st1 (snd result)"
      unfolding pass [OF rg ok] by (rule only_grads_pass)
    with o1 have o: "only_grads st0 (snd result)" by (rule only_grads_trans)
    have "grad_of (snd result) self = grad_of ?st1 self"
      unfolding pass [OF rg ok]
    proof (rule grad_of_pass_other [OF o1])
      fix n assume "n \<in> set (rev (topo_order_of st0 self))"
      then have "n \<in> set (topo_order_of st0 self)" by simp
      with po show "self \<notin> set (parents_of st0 n)" by (rule output_not_parent)
    qed simp
    also have "\<dots> = Some seed" using sv by (simp add: grad_of_set_grad)
    finally show ?thesis using o by simp
  qed
  have ones: "nd_shape seed = nd_shape (data t) \<and> nd_elems seed = replicate (nd_size (data t)) 1"
    if "gradient = None"
    using that by (simp add: seed ones_like_def)
  from cw(1) e1 e2 unchanged pass seeded ones show ?thesis by blast
qed

text \<open>
  On \<open>stale_leaves\<close>, where the registry holds a stale node: \<^verbatim>\<open>backward\<close> raises on the input
  and on the parameter of three elements, and both calls return the graph without the stale
  node; on the parameter of one element neither exception is raised, the gradient of the
  parameter is \<open>[1]\<close> and the stale node has left the registry.
\<close>

theorem backward_reclaims_then_checks_witness:
  "well_formed stale_leaves
   \<and> registry stale_leaves = [0, 1, 2, 3]
   \<and> clear_stale_tensors stale_leaves = (None, reclaimed_leaves)
   \<and> registry reclaimed_leaves = [0, 1, 2]
   \<and> backward no_gradients 0 None False stale_leaves = (Some GradientNotRequired, reclaimed_leaves)
   \<and> backward no_gradients 2 None False stale_leaves
       = (Some NonScalarImplicitGradient, reclaimed_leaves)
   \<and> fst (backward no_gradients 1 None False stale_leaves) \<noteq> Some GradientNotRequired
   \<and> fst (backward no_gradients 1 None False stale_leaves) \<noteq> Some NonScalarImplicitGradient
   \<and> grad_of (snd (backward no_gradients 1 None False stale_leaves)) 1 = Some (vec [1])
   \<and> registry (snd (backward no_gradients 1 None False stale_leaves)) = [0, 1, 2]"
proof -
  note wf = well_formed_stale_leaves
  have st0: "reclaimed_leaves = snd (clear_stale_tensors stale_leaves)"
    by (simp add: clear_stale_tensors_stale_leaves)
  have gf: "\<forall>f s n g. no_gradients f s n g \<noteq> Inl GradientNotRequired
                      \<and> no_gradients f s n g \<noteq> Inl NonScalarImplicitGradient"
    by (simp add: no_gradients_def)
  have l: "lookup reclaimed_leaves 0 = Some (heap reclaimed_leaves ! 0)"
    "lookup reclaimed_leaves 1 = Some (heap reclaimed_leaves ! 1)"
    "lookup reclaimed_leaves 2 = Some (heap reclaimed_leaves ! 2)"
    by (simp_all add: lookup_def reclaimed_leaves_def)
  have f: "\<not> requires_grad (heap reclaimed_leaves ! 0)"
    "requires_grad (heap reclaimed_leaves ! 1)" "nd_size (data (heap reclaimed_leaves ! 1)) = 1"
    "ones_like (data (heap reclaimed_leaves ! 1)) = vec [1]"
    "requires_grad (heap reclaimed_leaves ! 2)" "nd_size (data (heap reclaimed_leaves ! 2)) = 3"
    by (simp_all add: reclaimed_leaves_def nd_size_def vec_def ones_like_def)
  have r: "registry stale_leaves = [0, 1, 2, 3]" "registry reclaimed_leaves = [0, 1, 2]"
    by (simp_all add: stale_leaves_eq reclaimed_leaves_def)
  note w0 = backward_reclaims_then_checks [OF wf st0 l(1) gf refl refl, of None False]
  note w1 = backward_reclaims_then_checks [OF wf st0 l(2) gf refl refl, of None False]
  note w2 = backward_reclaims_then_checks [OF wf st0 l(3) gf refl refl, of None False]
  have a: "backward no_gradients 0 None False stale_leaves = (Some GradientNotRequired, reclaimed_leaves)"
    using w0 f by (simp add: prod_eq_iff)
  have b: "backward no_gradients 2 None False stale_leaves
             = (Some NonScalarImplicitGradient, reclaimed_leaves)"
    using w2 f by (simp add: prod_eq_iff)
  have c: "fst (backward no_gradients 1 None False stale_leaves) \<noteq> Some GradientNotRequired"
    "fst (backward no_gradients 1 None False stale_leaves) \<noteq> Some NonScalarImplicitGradient"
    using w1 [THEN conjunct2, THEN conjunct1] w1 [THEN conjunct2, THEN conjunct2, THEN conjunct1] f
    by blast+
  have prem: "requires_grad (heap reclaimed_leaves ! 1)
      \<and> ((None :: int ndarray option) \<noteq> None \<or> nd_size (data (heap reclaimed_leaves ! 1)) = 1)"
    using f(2,3) by simp
  note p = w1 [THEN conjunct2, THEN conjunct2, THEN conjunct2, THEN conjunct2, THEN conjunct1,
      THEN mp, OF prem, THEN conjunct2]
  have og: "only_grads reclaimed_leaves (snd (backward no_gradients 1 None False stale_leaves))"
    using p by (rule conjunct1)
  have d: "grad_of (snd (backward no_gradients 1 None False stale_leaves)) 1 = Some (vec [1])"
    using p [THEN conjunct2] f(4) by (simp only: option.case)
  from only_gradsD(2) [OF og]
  have e: "registry (snd (backward no_gradients 1 None False stale_leaves)) = [0, 1, 2]"
    by (simp add: r)
  from wf r clear_stale_tensors_stale_leaves a b c d e show ?thesis by simp
qed

text \<open>
  The claim says that the implicit gradient is refused exactly when the output has more than
  one element. \<^verbatim>\<open>Tensor([], PARAMETER).backward()\<close> is refused too, and its buffer has no
  element: the test of the code is \<^verbatim>\<open>size != 1\<close>.
\<close>

theorem implicit_gradient_of_empty_output_counterexample:
  "backward no_gradients 0 None False empty_leaf
     = (Some (RuntimeError ''Gradient can only be implicitly created for scalar outputs''), empty_leaf)
   \<and> data_of empty_leaf 0 = Some (vec [])
   \<and> \<not> 1 < nd_size (vec [] :: int ndarray)"
  by (simp add: backward_def clear_stale_tensors_empty_leaf)
     (simp add: empty_leaf_eq lookup_def data_of_def nd_size_def vec_def)

section \<open>The order of the backward pass\<close>

text \<open>
  C1. In a graph where every parent is older than its child, let \<open>order\<close> be the order that
  \<^verbatim>\<open>backward\<close> builds from the output. It holds no node twice. Its nodes are exactly the
  nodes reached from the output along \<^verbatim>\<open>_parents\<close> through nodes that all require
  gradients: so every node in it requires gradients, nothing reached only through a node
  that does not is in it, and every node that is so reached is in it; the output is its
  last node when the output requires gradients, and it is empty when the output does not.
  Every parent of a node of the order that requires gradients stands before the node (and
  so does every parent that is in the order). So in the reversed order, which the pass
  follows, no node comes before a node it is a parent of, and every parent that requires
  gradients comes after each of its children.
\<close>

theorem topo_order_complete_and_ordered:
  assumes "parents_older st" and "order = topo_order_of st out"
  shows "distinct order
       \<and> set order = {m. grad_path st out m}
       \<and> (\<forall>m \<in> set order. requires_grad_of st m)
       \<and> (requires_grad_of st out \<longrightarrow> order \<noteq> [] \<and> last order = out)
       \<and> (\<not> requires_grad_of st out \<longrightarrow> order = [])
       \<and> (\<forall>i < length order. \<forall>p \<in> set (parents_of st (order ! i)).
              requires_grad_of st p \<longrightarrow> p \<in> set (take i order))
       \<and> (\<forall>i < length order. \<forall>p \<in> set (parents_of st (order ! i)).
              p \<in> set order \<longrightarrow> p \<in> set (take i order))
       \<and> (\<forall>i j. i < j \<and> j < length order \<longrightarrow>
              rev order ! i \<notin> set (parents_of st (rev order ! j)))
       \<and> (\<forall>i < length order. \<forall>p \<in> set (parents_of st (rev order ! i)).
              requires_grad_of st p \<longrightarrow> (\<exists>j. i < j \<and> j < length order \<and> rev order ! j = p))"
proof -
  note s = topo_order_of_spec [OF assms(1), of out, folded assms(2)]
  let ?n = "length order"
  have rg: "\<forall>m \<in> set order. requires_grad_of st m"
    using s(2) by (auto dest: grad_path_requires_grad)
  have first: "p \<in> set (take i order)"
    if "i < ?n" "p \<in> set (parents_of st (order ! i))" "requires_grad_of st p" for i p
    using that s(3) unfolding parents_first_def by blast
  have first': "p \<in> set (take i order)"
    if "i < ?n" "p \<in> set (parents_of st (order ! i))" "p \<in> set order" for i p
    using that first rg by blast
  have rev: "rev order ! i \<notin> set (parents_of st (rev order ! j))" if ij: "i < j" "j < ?n" for i j
  proof
    assume a: "rev order ! i \<in> set (parents_of st (rev order ! j))"
    from ij have ri: "rev order ! i = order ! (?n - Suc i)" and rj: "rev order ! j = order ! (?n - Suc j)"
      by (simp_all add: rev_nth)
    from ij have lt: "?n - Suc j < ?n - Suc i" "?n - Suc i < ?n" "?n - Suc j < ?n" by auto
    from first' [OF lt(3), of "order ! (?n - Suc i)"] a lt(2)
    have "order ! (?n - Suc i) \<in> set (take (?n - Suc j) order)"
      by (simp add: ri rj)
    then obtain k where k: "k < ?n - Suc j" "order ! k = order ! (?n - Suc i)"
      by (auto simp: in_set_conv_nth)
    with s(1) lt have "k = ?n - Suc i"
      by (simp add: nth_eq_iff_index_eq)
    with k lt show False by simp
  qed
  have later: "\<exists>j. i < j \<and> j < ?n \<and> rev order ! j = p"
    if i: "i < ?n" and p: "p \<in> set (parents_of st (rev order ! i))" and prg: "requires_grad_of st p"
    for i p
  proof -
    from i have ri: "rev order ! i = order ! (?n - Suc i)" and lt: "?n - Suc i < ?n"
      by (simp_all add: rev_nth)
    from first [OF lt] p prg have "p \<in> set (take (?n - Suc i) order)" by (simp add: ri)
    then obtain k where k: "k < ?n - Suc i" "order ! k = p"
      by (auto simp: in_set_conv_nth)
    then have "i < ?n - Suc k" "?n - Suc k < ?n" "rev order ! (?n - Suc k) = p"
      using i by (auto simp: rev_nth)
    then show ?thesis by blast
  qed
  have l: "requires_grad_of st out \<longrightarrow> order \<noteq> [] \<and> last order = out"
    using topo_order_of_last [of st out] by (simp add: assms(2))
  have e: "\<not> requires_grad_of st out \<longrightarrow> order = []"
    using topo_order_of_not_required [of st out] by (simp add: assms(2))
  from s(1,2) rg l e first first' rev later show ?thesis by blast
qed

text \<open>
  In the diamond the order from \<open>d\<close> is \<open>a, b, c, d\<close>: the parameter once, though two nodes
  have it as parent, before both of them; the output last; and the input \<open>x\<close> not at all.
\<close>

theorem topo_order_complete_and_ordered_witness:
  "parents_older diamond
   \<and> topo_order_of diamond 4 = [0, 2, 3, 4]
   \<and> distinct (topo_order_of diamond 4)
   \<and> {m. grad_path diamond 4 m} = {0, 2, 3, 4}
   \<and> grad_path diamond 4 0
   \<and> \<not> grad_path diamond 4 1
   \<and> \<not> requires_grad_of diamond 1
   \<and> last (topo_order_of diamond 4) = 4"
proof -
  have po: "parents_older diamond"
    by (simp add: parents_older_def diamond_eq)
  have x: "\<not> requires_grad_of diamond 1"
    by (simp add: requires_grad_of_def lookup_def diamond_eq)
  note t = topo_order_complete_and_ordered [OF po refl, of 4, unfolded topo_order_of_diamond]
  from t have d: "distinct [0, 2, 3, 4 :: nat]" by blast
  from t have eq: "{m. grad_path diamond 4 m} = {0, 2, 3, 4}" by simp
  then have "grad_path diamond 4 0" and "\<not> grad_path diamond 4 1" by auto
  with po x eq show ?thesis
    by (simp add: topo_order_of_diamond)
qed

section \<open>One turn of the backward pass\<close>

text \<open>
  C2. The call of \<^verbatim>\<open>backward\<close> passes its checks, \<open>node\<close> is a node of the reversed
  topological order, \<open>s\<close> is the state when its turn comes and \<open>(r, s')\<close> is what its turn
  gives: \<^verbatim>\<open>backward\<close> raises what the turn raises, or goes on from \<open>s'\<close> with the nodes after
  \<open>node\<close>.

  \<^item> A node without \<^verbatim>\<open>_grad_fn\<close> or without \<^verbatim>\<open>_grad\<close> is passed over: nothing changes.
  \<^item> Otherwise the gradient function is called with the node and its \<^verbatim>\<open>_grad\<close>, in the state
    \<open>s\<close>. If it raises, the pass raises and nothing has changed.
  \<^item> If it returns \<open>gs\<close>, the gradients are paired with the parents in order,
    \<^verbatim>\<open>zip(node._parents, gradients)\<close>. A turn that does not raise leaves, in every tensor \<open>q\<close>
    that requires gradients, the gradients paired with \<open>q\<close> summed into what \<^verbatim>\<open>q._grad\<close> held:
    stored if the slot was empty, added otherwise, once for each pair of \<open>q\<close>; the \<^verbatim>\<open>_grad\<close> of a
    tensor that does not require gradients is as before; and the \<^verbatim>\<open>_grad\<close> of the node itself is
    as before, or \<open>None\<close> where the pass clears it. Only slots \<^verbatim>\<open>_grad\<close> change.
  \<^item> The turn raises only when one of these sums cannot be formed, NumPy refusing to
    broadcast the two shapes.
  \<^item> The sum of a gradient into an empty slot is the gradient, and into a slot holding a
    buffer of the same shape it is the sum element by element.
\<close>

theorem backward_invokes_and_accumulates:
  fixes st :: "'a::{plus,one} state"
  assumes wf: "well_formed st" and st0: "st0 = snd (clear_stale_tensors st)"
    and t: "lookup st0 self = Some t" and rg: "requires_grad t"
    and ok: "gradient \<noteq> None \<or> nd_size (data t) = 1"
    and seed: "seed = (case gradient of None \<Rightarrow> ones_like (data t) | Some g \<Rightarrow> g)"
    and order: "rev (topo_order_of st0 self) = before @ node # after"
    and reached: "for_each (process_node gf keep_grads self) before (set_grad self seed st0) = (None, s)"
    and step: "process_node gf keep_grads self node s = (r, s')"
  shows "backward gf self gradient keep_grads st
           = (case r of Some e \<Rightarrow> (Some e, s')
              | None \<Rightarrow> for_each (process_node gf keep_grads self) after s')
       \<and> (grad_fn_of s node = None \<or> grad_of s node = None \<longrightarrow> r = None \<and> s' = s)
       \<and> (\<forall>f g. grad_fn_of s node = Some f \<and> grad_of s node = Some g \<longrightarrow>
            (case gf f s node g of
               Inl e \<Rightarrow> r = Some e \<and> s' = s
             | Inr gs \<Rightarrow>
                 only_grads s s'
               \<and> (\<forall>e. r = Some e \<longrightarrow> e = BroadcastError
                     \<and> (\<exists>q. requires_grad_of s q
                          \<and> sum_contributions (grad_of s q)
                               (gradients_for q (zip (parents_of s node) gs)) = Inl e))
               \<and> (r = None \<longrightarrow>
                     (\<forall>q. q \<noteq> node \<and> requires_grad_of s q \<longrightarrow>
                        sum_contributions (grad_of s q)
                          (gradients_for q (zip (parents_of s node) gs)) = Inr (grad_of s' q))
                   \<and> (\<forall>q. q \<noteq> node \<and> \<not> requires_grad_of s q \<longrightarrow> grad_of s' q = grad_of s q)
                   \<and> grad_of s' node
                       = (if \<not> keep_grads \<and> tensor_type_of s node = Some INTERMEDIATE \<and> node \<noteq> self
                          then None else Some g))))
       \<and> (\<forall>old g :: 'a ndarray. sum_contributions None [g] = Inr (Some g)
            \<and> (nd_shape old = nd_shape g \<longrightarrow>
                 sum_contributions (Some old) [g] = Inr (Some (nd_zip (+) old g))))"
proof -
  note cw = clear_stale_tensors_well_formed [OF wf]
  from cw(1) have c: "clear_stale_tensors st = (None, st0)" by (simp add: st0 prod_eq_iff)
  from cw(2) have po: "parents_older st0" by (simp add: st0 well_formedD)
  let ?P = "process_node gf keep_grads self"
  have "backward gf self gradient keep_grads st
          = for_each ?P (rev (topo_order_of st0 self)) (set_grad self seed st0)"
    unfolding seed by (rule backward_pass_eq [OF c t rg ok])
  also have "\<dots> = (case r of Some e \<Rightarrow> (Some e, s') | None \<Rightarrow> for_each ?P after s')"
    unfolding order for_each_append reached using step by (simp split: option.splits)
  finally have 1: "backward gf self gradient keep_grads st
           = (case r of Some e \<Rightarrow> (Some e, s') | None \<Rightarrow> for_each ?P after s')" .
  have o: "only_grads st0 s"
  proof (rule only_grads_trans)
    show "only_grads st0 (set_grad self seed st0)" by (simp add: set_grad_def only_grads_set_grad)
    from only_grads_pass [of "set_grad self seed st0" gf keep_grads self before] reached
    show "only_grads (set_grad self seed st0) s" by simp
  qed
  have "node \<in> set (topo_order_of st0 self)"
    using arg_cong [OF order, of set] by auto
  then have "requires_grad_of st0 node" by (rule topo_order_requires_grad [OF po])
  then have rn: "requires_grad_of s node" by (simp add: only_grads_of(2) [OF o])
  have np: "node \<notin> set (parents_of s node)"
    using not_own_parent [OF po, of node] by (simp add: only_grads_of(1) [OF o])
  have 2: "r = None \<and> s' = s" if "grad_fn_of s node = None \<or> grad_of s node = None"
    using process_node_skip [OF that, of gf keep_grads self] step by simp
  have 3: "case gf f s node g of
               Inl e \<Rightarrow> r = Some e \<and> s' = s
             | Inr gs \<Rightarrow>
                 only_grads s s'
               \<and> (\<forall>e. r = Some e \<longrightarrow> e = BroadcastError
                     \<and> (\<exists>q. requires_grad_of s q
                          \<and> sum_contributions (grad_of s q)
                               (gradients_for q (zip (parents_of s node) gs)) = Inl e))
               \<and> (r = None \<longrightarrow>
                     (\<forall>q. q \<noteq> node \<and> requires_grad_of s q \<longrightarrow>
                        sum_contributions (grad_of s q)
                          (gradients_for q (zip (parents_of s node) gs)) = Inr (grad_of s' q))
                   \<and> (\<forall>q. q \<noteq> node \<and> \<not> requires_grad_of s q \<longrightarrow> grad_of s' q = grad_of s q)
                   \<and> grad_of s' node
                       = (if \<not> keep_grads \<and> tensor_type_of s node = Some INTERMEDIATE \<and> node \<noteq> self
                          then None else Some g))"
    if f: "grad_fn_of s node = Some f" and g: "grad_of s node = Some g" for f g
  proof (cases "gf f s node g")
    case (Inl e)
    with process_node_raise [where gf = gf, OF f g Inl, of keep_grads self] step show ?thesis by simp
  next
    case (Inr gs)
    note ps = process_node_step [where gf = gf, OF f g Inr step refl]
    have own: "gradients_for node (zip (parents_of s node) gs) = []"
      by (rule gradients_for_none) (use np in \<open>auto dest: set_zip_leftD\<close>)
    have last: "grad_of s' node
                = (if \<not> keep_grads \<and> tensor_type_of s node = Some INTERMEDIATE \<and> node \<noteq> self
                   then None else Some g)" if r: "r = None"
    proof (cases "\<not> keep_grads \<and> tensor_type_of s node = Some INTERMEDIATE \<and> node \<noteq> self")
      case True
      with ps(3) [OF r] show ?thesis by simp
    next
      case False
      then have "node \<noteq> node \<or> keep_grads \<or> tensor_type_of s node \<noteq> Some INTERMEDIATE \<or> node = self"
        by blast
      from ps(4) [OF r this rn] have "grad_of s' node = Some g" by (simp add: own g)
      with False show ?thesis by auto
    qed
    from ps(1) ps(2) ps(4) ps(5) last show ?thesis unfolding Inr sum.case by blast
  qed
  have 4: "\<forall>old g :: 'a ndarray. sum_contributions None [g] = Inr (Some g)
            \<and> (nd_shape old = nd_shape g \<longrightarrow>
                 sum_contributions (Some old) [g] = Inr (Some (nd_zip (+) old g)))"
    by (simp add: np_add_same_shape)
  from 1 2 3 4 show ?thesis by blast
qed

text \<open>
  On the diamond \<^verbatim>\<open>d = a * 2 + a * x\<close>, with the gradient functions of the chain rule: when the
  turn of \<^verbatim>\<open>b = a * 2\<close> comes, \<^verbatim>\<open>a._grad\<close> holds \<open>[4]\<close>, received from \<^verbatim>\<open>c = a * x\<close>; the gradient
  function of \<open>b\<close> returns \<open>[2]\<close> for its parent \<open>a\<close>, and the turn leaves \<open>[6]\<close> in \<^verbatim>\<open>a._grad\<close>: the
  two paths from \<open>d\<close> to \<open>a\<close> are summed.
\<close>

theorem backward_invokes_and_accumulates_witness:
  "well_formed diamond
   \<and> rev (topo_order_of diamond 4) = [4, 3] @ 2 # [0]
   \<and> for_each (process_node chain_rule False 4) [4, 3] (set_grad 4 (vec [1]) diamond)
       = (None, graded [Some (vec [4]), None, Some (vec [1]), None, Some (vec [1])] diamond)
   \<and> chain_rule mul_scalar_backward
         (graded [Some (vec [4]), None, Some (vec [1]), None, Some (vec [1])] diamond) 2 (vec [1])
       = Inr [vec [2]]
   \<and> parents_of (graded [Some (vec [4]), None, Some (vec [1]), None, Some (vec [1])] diamond) 2 = [0]
   \<and> grad_of (graded [Some (vec [4]), None, Some (vec [1]), None, Some (vec [1])] diamond) 0
       = Some (vec [4])
   \<and> grad_of (graded [Some (vec [6]), None, None, None, Some (vec [1])] diamond) 0 = Some (vec [6])
   \<and> grad_of (graded [Some (vec [6]), None, None, None, Some (vec [1])] diamond) 2 = None
   \<and> backward chain_rule 4 None False diamond
       = for_each (process_node chain_rule False 4) [0]
           (graded [Some (vec [6]), None, None, None, Some (vec [1])] diamond)"
proof -
  let ?s = "graded [Some (vec [4]), None, Some (vec [1]), None, Some (vec [1])] diamond"
  let ?s' = "graded [Some (vec [6]), None, None, None, Some (vec [1])] diamond"
  have st0: "diamond = snd (clear_stale_tensors diamond)"
    by (simp add: clear_stale_tensors_diamond)
  have t: "lookup diamond 4 = Some (heap diamond ! 4)" by (simp add: lookup_def diamond_eq)
  have rg: "requires_grad (heap diamond ! 4)" by (simp add: diamond_eq)
  have ok: "(None :: int ndarray option) \<noteq> None \<or> nd_size (data (heap diamond ! 4)) = 1"
    by (simp add: diamond_eq nd_size_def vec_def)
  have seed: "vec [1] = (case (None :: int ndarray option) of
                 None \<Rightarrow> ones_like (data (heap diamond ! 4)) | Some g \<Rightarrow> g)"
    by (simp add: diamond_eq nd_size_def vec_def ones_like_def)
  have order: "rev (topo_order_of diamond 4) = [4, 3] @ 2 # [0]"
    by (simp add: topo_order_of_diamond)
  note w = backward_invokes_and_accumulates [OF well_formed_diamond st0 t rg ok seed order
      diamond_first_turns diamond_third_turn]
  have f: "grad_fn_of ?s 2 = Some mul_scalar_backward" "grad_of ?s 2 = Some (vec [1])"
    "parents_of ?s 2 = [0]" "grad_of ?s 0 = Some (vec [4])" "requires_grad_of ?s 0"
    by (simp_all add: graded_def diamond_eq grad_fn_of_def grad_of_def parents_of_def
        requires_grad_of_def lookup_def)
  have c: "chain_rule mul_scalar_backward ?s 2 (vec [1]) = Inr [vec [2]]"
    by (simp add: chain_rule_def scalar_of_def graded_def diamond_eq lookup_def nd_map_def vec_def)
  have b: "backward chain_rule 4 None False diamond
             = for_each (process_node chain_rule False 4) [0] ?s'"
    using w [THEN conjunct1] by simp
  have ty: "tensor_type_of ?s 2 = Some INTERMEDIATE"
    by (simp add: tensor_type_of_def graded_def diamond_eq lookup_def)
  note w3 = w [THEN conjunct2, THEN conjunct2, THEN conjunct1, rule_format, OF conjI [OF f(1) f(2)],
      unfolded c sum.case, THEN conjunct2, THEN conjunct2, THEN mp, OF refl]
  have "sum_contributions (grad_of ?s 0) (gradients_for 0 (zip (parents_of ?s 2) [vec [2]]))
          = Inr (grad_of ?s' 0)"
    using w3 [THEN conjunct1, rule_format, of 0] f(5) by simp
  then have g0: "grad_of ?s' 0 = Some (vec [6])"
    unfolding f(3) f(4) by (simp add: gradients_for_def np_add_def nd_zip_def vec_def)
  have g2: "grad_of ?s' 2 = None"
    using w3 [THEN conjunct2, THEN conjunct2] ty by simp
  note g = g0 g2
  from well_formed_diamond order diamond_first_turns c f g b show ?thesis by simp
qed

section \<open>Gradients cleared by the pass\<close>

text \<open>
  C8. The call of \<^verbatim>\<open>backward\<close> passes its checks and returns; \<open>order\<close> is the topological
  order it builds. The nodes that the pass processes are nodes of the order that have a
  \<^verbatim>\<open>_grad_fn\<close>.

  \<^item> With \<^verbatim>\<open>keep_grads\<close> false, every node of the order other than the output, of type
    \<^verbatim>\<open>INTERMEDIATE\<close> and with a \<^verbatim>\<open>_grad_fn\<close>, has \<^verbatim>\<open>_grad\<close> \<open>None\<close> when \<^verbatim>\<open>backward\<close> returns: the pass
    cleared it at its turn, or passed it over because it had none, and no later turn gives
    it one, its children having had their turns before.
  \<^item> Every other tensor retains its gradient: the output, a tensor that is not of type
    \<^verbatim>\<open>INTERMEDIATE\<close>, a leaf (no \<^verbatim>\<open>_grad_fn\<close>), a tensor outside the order, and with \<^verbatim>\<open>keep_grads\<close>
    true every tensor. A \<^verbatim>\<open>_grad\<close> that such a tensor holds before the call, or after any
    number \<open>k\<close> of turns of the loop, is still there when \<^verbatim>\<open>backward\<close> returns.
  \<^item> The output holds the seed.
\<close>

theorem intermediate_gradients_cleared:
  assumes wf: "well_formed st" and st0: "st0 = snd (clear_stale_tensors st)"
    and t: "lookup st0 self = Some t" and rg: "requires_grad t"
    and ok: "gradient \<noteq> None \<or> nd_size (data t) = 1"
    and seed: "seed = (case gradient of None \<Rightarrow> ones_like (data t) | Some g \<Rightarrow> g)"
    and result: "result = backward gf self gradient keep_grads st"
    and returns: "fst result = None"
    and order: "order = topo_order_of st0 self"
  shows "(\<not> keep_grads \<longrightarrow>
            (\<forall>n \<in> set order. n \<noteq> self \<and> tensor_type_of st0 n = Some INTERMEDIATE
                \<and> grad_fn_of st0 n \<noteq> None \<longrightarrow> grad_of (snd result) n = None))
       \<and> (\<forall>n. (keep_grads \<or> n = self \<or> tensor_type_of st0 n \<noteq> Some INTERMEDIATE
                 \<or> grad_fn_of st0 n = None \<or> n \<notin> set order) \<longrightarrow>
              (grad_of st n \<noteq> None \<longrightarrow> grad_of (snd result) n \<noteq> None)
            \<and> (\<forall>k. grad_of (snd (for_each (process_node gf keep_grads self) (take k (rev order))
                                      (set_grad self seed st0))) n \<noteq> None
                   \<longrightarrow> grad_of (snd result) n \<noteq> None))
       \<and> grad_of (snd result) self = Some seed"
proof -
  note cw = clear_stale_tensors_well_formed [OF wf]
  from cw(1) have c: "clear_stale_tensors st = (None, st0)" by (simp add: st0 prod_eq_iff)
  from cw(2) have po: "parents_older st0" by (simp add: st0 well_formedD)
  from t have sv: "self < length (heap st0)" by (auto simp: lookup_def split: if_splits)
  let ?P = "process_node gf keep_grads self"
  let ?st1 = "set_grad self seed st0"
  have pass: "result = for_each ?P (rev order) ?st1"
    unfolding result seed order by (rule backward_pass_eq [OF c t rg ok])
  have o1: "only_grads st0 ?st1" by (simp add: set_grad_def only_grads_set_grad)
  have ok': "for_each ?P (rev order) ?st1 = (None, snd result)"
    using returns pass by (simp add: prod_eq_iff)
  have 1: "grad_of (snd result) n = None"
    if "\<not> keep_grads" "n \<in> set order" "n \<noteq> self" "tensor_type_of st0 n = Some INTERMEDIATE"
      "grad_fn_of st0 n \<noteq> None" for n
  proof (rule cleared_in_pass [OF po o1 _ _ that(3,4,5)])
    show "rev order = rev (topo_order_of st0 self)" by (simp add: order)
    show "n \<in> set (rev order)" using that(2) by simp
    show "for_each (process_node gf False self) (rev order) ?st1 = (None, snd result)"
      using ok' that(1) by simp
  qed
  have prefix: "grad_of (snd result) n \<noteq> None"
    if c: "keep_grads \<or> n = self \<or> tensor_type_of st0 n \<noteq> Some INTERMEDIATE
           \<or> grad_fn_of st0 n = None \<or> n \<notin> set order"
      and g: "grad_of (snd (for_each ?P (take k (rev order)) ?st1)) n \<noteq> None" for n k
  proof -
    obtain r s where p: "for_each ?P (take k (rev order)) ?st1 = (r, s)"
      by (cases "for_each ?P (take k (rev order)) ?st1")
    have "for_each ?P (take k (rev order) @ drop k (rev order)) ?st1 = (None, snd result)"
      using ok' by simp
    then have q: "r = None \<and> for_each ?P (drop k (rev order)) s = (None, snd result)"
      unfolding for_each_append p by (cases r) auto
    from only_grads_pass [of ?st1 gf keep_grads self "take k (rev order)"] p
    have "only_grads ?st1 s" by simp
    with o1 have o: "only_grads st0 s" by (rule only_grads_trans)
    have "n \<notin> set (drop k (rev order)) \<or> keep_grads \<or> n = self
          \<or> tensor_type_of st0 n \<noteq> Some INTERMEDIATE \<or> grad_fn_of st0 n = None"
      using c by (auto dest: in_set_dropD)
    from grad_kept_pass [OF o _ this, of gf] g p q show ?thesis by simp
  qed
  have before: "grad_of (snd result) n \<noteq> None"
    if c: "keep_grads \<or> n = self \<or> tensor_type_of st0 n \<noteq> Some INTERMEDIATE
           \<or> grad_fn_of st0 n = None \<or> n \<notin> set order"
      and g: "grad_of st n \<noteq> None" for n
  proof (rule prefix [OF c, of 0])
    from g have "grad_of st0 n \<noteq> None" by (simp add: st0 clear_stale_tensors_grad_of [OF wf])
    then show "grad_of (snd (for_each ?P (take 0 (rev order)) ?st1)) n \<noteq> None"
      by (simp add: grad_of_set_grad)
  qed
  have "grad_of (snd result) self = grad_of ?st1 self"
    unfolding pass
  proof (rule grad_of_pass_other [OF o1])
    fix n assume "n \<in> set (rev order)"
    then have "n \<in> set (topo_order_of st0 self)" by (simp add: order)
    with po show "self \<notin> set (parents_of st0 n)" by (rule output_not_parent)
  qed simp
  also have "\<dots> = Some seed" using sv by (simp add: grad_of_set_grad)
  finally have 3: "grad_of (snd result) self = Some seed" .
  from 1 prefix before 3 show ?thesis by blast
qed

text \<open>
  On the diamond \<^verbatim>\<open>d = a * 2 + a * x\<close>, with the gradient functions of the chain rule.
  By default the two products end without a gradient, the parameter \<open>a\<close> holds \<open>[6]\<close> and the
  output holds the seed; with \<^verbatim>\<open>keep_grads\<close> the two products hold theirs as well.
\<close>

theorem intermediate_gradients_cleared_witness:
  "topo_order_of diamond 4 = [0, 2, 3, 4]
   \<and> map (tensor_type_of diamond) [0, 2, 3, 4]
       = [Some PARAMETER, Some INTERMEDIATE, Some INTERMEDIATE, Some INTERMEDIATE]
   \<and> fst (backward chain_rule 4 None False diamond) = None
   \<and> map (grad_of (snd (backward chain_rule 4 None False diamond))) [0, 2, 3, 4]
       = [Some (vec [6]), None, None, Some (vec [1])]
   \<and> fst (backward chain_rule 4 None True diamond) = None
   \<and> map (grad_of (snd (backward chain_rule 4 None True diamond))) [0, 2, 3, 4]
       = [Some (vec [6]), Some (vec [1]), Some (vec [1]), Some (vec [1])]"
proof -
  have st0: "diamond = snd (clear_stale_tensors diamond)"
    by (simp add: clear_stale_tensors_diamond)
  have t: "lookup diamond 4 = Some (heap diamond ! 4)" by (simp add: lookup_def diamond_eq)
  have rg: "requires_grad (heap diamond ! 4)" by (simp add: diamond_eq)
  have ok: "(None :: int ndarray option) \<noteq> None \<or> nd_size (data (heap diamond ! 4)) = 1"
    by (simp add: diamond_eq nd_size_def vec_def)
  have seed: "vec [1] = (case (None :: int ndarray option) of
                 None \<Rightarrow> ones_like (data (heap diamond ! 4)) | Some g \<Rightarrow> g)"
    by (simp add: diamond_eq nd_size_def vec_def ones_like_def)
  have r0: "fst (backward chain_rule 4 None False diamond) = None"
    by (simp add: backward_diamond)
  have r1: "fst (backward chain_rule 4 None True diamond) = None"
    by (simp add: backward_diamond_keep)
  have ty: "map (tensor_type_of diamond) [0, 2, 3, 4]
       = [Some PARAMETER, Some INTERMEDIATE, Some INTERMEDIATE, Some INTERMEDIATE]"
    by (simp add: tensor_type_of_def diamond_eq lookup_def)
  have gfn: "grad_fn_of diamond 2 \<noteq> None" "grad_fn_of diamond 3 \<noteq> None"
    by (simp_all add: grad_fn_of_def diamond_eq lookup_def)
  note w0 = intermediate_gradients_cleared [OF well_formed_diamond st0 t rg ok seed refl r0 refl]
  note w1 = intermediate_gradients_cleared [OF well_formed_diamond st0 t rg ok seed refl r1 refl]
  have c: "grad_of (snd (backward chain_rule 4 None False diamond)) 2 = None"
    "grad_of (snd (backward chain_rule 4 None False diamond)) 3 = None"
    using w0 [THEN conjunct1] ty gfn by (simp_all add: topo_order_of_diamond)
  have d: "grad_of (snd (backward chain_rule 4 None False diamond)) 4 = Some (vec [1])"
    "grad_of (snd (backward chain_rule 4 None True diamond)) 4 = Some (vec [1])"
    using w0 [THEN conjunct2, THEN conjunct2] w1 [THEN conjunct2, THEN conjunct2] by simp_all
  have a: "grad_of (snd (backward chain_rule 4 None False diamond)) 0 = Some (vec [6])"
    unfolding backward_diamond by (simp add: grad_of_def graded_def diamond_eq lookup_def)
  have k: "grad_of (snd (backward chain_rule 4 None True diamond)) 0 = Some (vec [6])"
    "grad_of (snd (backward chain_rule 4 None True diamond)) 2 = Some (vec [1])"
    "grad_of (snd (backward chain_rule 4 None True diamond)) 3 = Some (vec [1])"
    unfolding backward_diamond_keep by (simp_all add: grad_of_def graded_def diamond_eq lookup_def)
  from topo_order_of_diamond ty r0 r1 a c d k show ?thesis by simp
qed

section \<open>The reclaimer\<close>

text \<open>
  C9. On a well-formed graph \<^verbatim>\<open>clear_stale_tensors\<close> does not raise. With \<open>S\<close> the registered
  tensors that are stale: the registry keeps exactly the tensors that are not stale, in
  their order; every tuple of parents is what it was without the tensors of \<open>S\<close>; the list
  of children of every tensor still registered is what it was without the tensors of \<open>S\<close>
  (so the links between tensors that are not stale stay, in their order); nothing but
  parents and children changes in any tensor; running it again changes nothing; and when no
  registered tensor is stale it changes nothing at all.
\<close>

theorem clear_stale_tensors_reclaims:
  assumes wf: "well_formed st"
    and S: "S = {s \<in> set (registry st). stale_of st s}"
    and st': "st' = snd (clear_stale_tensors st)"
  shows "fst (clear_stale_tensors st) = None
       \<and> registry st' = filter (\<lambda>i. \<not> stale_of st i) (registry st)
       \<and> length (heap st') = length (heap st)
       \<and> (\<forall>u < length (heap st). parents_of st' u = filter (\<lambda>p. p \<notin> S) (parents_of st u))
       \<and> (\<forall>u \<in> set (registry st'). children_of st' u = filter (\<lambda>c. c \<notin> S) (children_of st u))
       \<and> (\<forall>u < length (heap st). same_but_links (heap st ! u) (heap st' ! u))
       \<and> clear_stale_tensors st' = (None, st')
       \<and> (S = {} \<longrightarrow> st' = st)"
proof -
  note w = well_formedD [OF wf]
  from for_each_clear_one_reclaims [OF wf w(2) subset_refl] obtain st1 where
    run: "for_each clear_one (registry st) st = (None, st1)" and r: "reclaimed S st st1"
    unfolding S by blast
  from run have eq: "st' = st1" and ok: "fst (clear_stale_tensors st) = None"
    by (simp_all add: st' clear_stale_tensors_def)
  note rd = reclaimedD [OF r]
  have reg: "registry st1 = filter (\<lambda>i. \<not> stale_of st i) (registry st)"
    unfolding rd(2) S by (rule filter_cong) auto
  have par: "parents_of st1 u = filter (\<lambda>p. p \<notin> S) (parents_of st u)" if "u < length (heap st)" for u
    using that rd(4) [OF that] by (simp add: parents_of_def lookup_def rd(1))
  have ch: "children_of st1 u = filter (\<lambda>c. c \<notin> S) (children_of st u)" if u: "u \<in> set (registry st1)" for u
  proof -
    from u have "u \<in> set (registry st)" by (simp add: rd(2))
    then have v: "u < length (heap st)" by (rule registry_valid [OF w(1)])
    from rd(6) [OF v u] v show ?thesis by (simp add: children_of_def lookup_def rd(1))
  qed
  have idem: "clear_stale_tensors st1 = (None, st1)"
    unfolding clear_stale_tensors_def
    by (rule for_each_clear_one_nothing_stale) (simp add: reg reclaimed_stale_of [OF r])
  have noop: "st1 = st" if "S = {}"
  proof -
    from that have "\<And>s. s \<in> set (registry st) \<Longrightarrow> \<not> stale_of st s" by (auto simp: S)
    from for_each_clear_one_nothing_stale [OF this] run show ?thesis by simp
  qed
  from ok reg rd(1) par ch rd(3) idem noop show ?thesis
    unfolding eq by blast
qed

text \<open>
  In the example the stale \<open>t\<close> leaves the registry, the children of \<open>a\<close> and the parents of
  \<open>y\<close>, and a second run changes nothing.
\<close>

theorem clear_stale_tensors_reclaims_witness:
  "well_formed stale_example
   \<and> {s \<in> set (registry stale_example). stale_of stale_example s} = {1}
   \<and> fst (clear_stale_tensors stale_example) = None
   \<and> registry (snd (clear_stale_tensors stale_example)) = [0, 2]
   \<and> parents_of (snd (clear_stale_tensors stale_example)) 2 = []
   \<and> children_of (snd (clear_stale_tensors stale_example)) 0 = []
   \<and> clear_stale_tensors (snd (clear_stale_tensors stale_example))
       = (None, snd (clear_stale_tensors stale_example))"
proof -
  have S: "{s \<in> set (registry stale_example). stale_of stale_example s} = {1}"
    by (auto simp: stale_example_eq stale_of_def lookup_def)
  have st: "filter (\<lambda>i. \<not> stale_of stale_example i) (registry stale_example) = [0, 2]"
    by (simp add: stale_example_eq stale_of_def lookup_def)
  have p: "parents_of stale_example 2 = [1]" "children_of stale_example 0 = [1]"
     "length (heap stale_example) = 3"
    by (simp_all add: stale_example_eq parents_of_def children_of_def lookup_def)
  from clear_stale_tensors_reclaims [OF well_formed_stale_example S [symmetric] refl]
  show ?thesis
    using well_formed_stale_example S by (simp add: st p)
qed

section \<open>Transposing twice\<close>

text \<open>
  C4, as the code has it. In a well-formed graph let \<open>x\<close> be a tensor that \<^verbatim>\<open>T\<close> does not
  take for a transposed node (its gradient function is not \<^verbatim>\<open>transpose_backward\<close>, or it
  does not have exactly one parent). Then \<^verbatim>\<open>x.T()\<close> makes a new node \<open>t\<close>, and \<^verbatim>\<open>x.T().T()\<close>
  returns the address \<open>x\<close> itself and makes no node; \<open>t\<close> is stale after it; and the next run
  of the reclaimer does not raise and leaves \<open>t\<close> out of the registry, out of every tuple of
  parents and out of every list of children.
\<close>

theorem double_transpose_returns_original:
  assumes wf: "well_formed st" and x: "lookup st x = Some tx"
    and nt: "\<not> (grad_fn tx = Some transpose_backward \<and> length (parents tx) = 1)"
    and t: "t = length (heap st)"
    and st1: "st1 = snd (Tensor_T x st)"
    and st2: "st2 = snd (Tensor_T t st1)"
    and st3: "st3 = snd (clear_stale_tensors st2)"
  shows "fst (Tensor_T x st) = Inr t
       \<and> fst (Tensor_T t st1) = Inr x
       \<and> length (heap st2) = length (heap st1)
       \<and> stale_of st2 t
       \<and> fst (clear_stale_tensors st2) = None
       \<and> t \<notin> set (registry st3)
       \<and> (\<forall>u. t \<notin> set (parents_of st3 u) \<and> t \<notin> set (children_of st3 u))"
proof -
  note w = well_formedD [OF wf]
  from x have xv: "x < length (heap st)" and tx: "tx = heap st ! x"
    by (auto simp: lookup_def split: if_splits)
  let ?new = "new_node (nd_T (data tx)) (Some transpose_backward) [x] [] st"
  have fresh: "length (heap st) \<notin> set [x]" using xv by simp
  \<comment> \<open>the first transposition makes the node \<open>t\<close>\<close>
  have T1: "Tensor_T x st = (Inr t, st1)"
    and st1_eq: "st1 = snd (create_node (nd_T (data tx)) (Some transpose_backward) [x] [] st)"
    using Tensor_T_new [OF x nt] by (simp_all add: t st1)
  have wf1: "well_formed st1" unfolding st1 by (rule Tensor_T_well_formed [OF wf])
  have len1: "length (heap st1) = Suc t" by (simp add: st1_eq t)
  have t_node: "heap st1 ! t = ?new"
    unfolding st1_eq t by (rule heap_create_node_new [OF fresh])
  have lt: "lookup st1 t = Some ?new"
    using t_node by (simp add: lookup_def len1)
  \<comment> \<open>the second transposition returns \<open>x\<close> and marks \<open>t\<close>\<close>
  have T2: "Tensor_T t st1 = (Inr x, modify t (\<lambda>t. t\<lparr>stale := True\<rparr>) st1)"
    by (rule Tensor_T_back [OF lt]) (simp_all add: new_node_def)
  then have st2_eq: "st2 = modify t (\<lambda>t. t\<lparr>stale := True\<rparr>) st1" by (simp add: st2)
  have wf2: "well_formed st2" unfolding st2 by (rule Tensor_T_well_formed [OF wf1])
  have len2: "length (heap st2) = length (heap st1)" by (simp add: st2_eq)
  have stale2: "stale_of st2 t"
    by (simp add: st2_eq stale_of_def lookup_modify lt)
  have reg2: "registry st2 = registry st @ [t]"
    by (simp add: st2_eq st1_eq t registry_create_node_fresh [OF w(1)])
  have ch2: "children (heap st2 ! u) = children (heap st1 ! u)" if "u < Suc t" for u
    using that by (simp add: st2_eq heap_modify_nth len1)
  have stale2_old: "stale (heap st2 ! u) = stale (heap st ! u)" if "u < t" for u
    using that by (simp add: st2_eq heap_modify_nth len1 st1_eq t heap_create_node_old add_children_def)
  \<comment> \<open>the reclaimer\<close>
  let ?S = "{s \<in> set (registry st2). stale_of st2 s}"
  from clear_stale_tensors_reclaimed [OF wf2] obtain st' where
    run: "clear_stale_tensors st2 = (None, st')" and r: "reclaimed ?S st2 st'"
    by blast
  from run have st3_eq: "st3 = st'" and ok: "fst (clear_stale_tensors st2) = None"
    by (simp_all add: st3)
  note rd = reclaimedD [OF r]
  have tS: "t \<in> ?S" using stale2 by (simp add: reg2)
  have no_reg: "t \<notin> set (registry st')" using tS by (simp add: rd(2))
  have len3: "length (heap st') = Suc t" by (simp add: rd(1) len2 len1)
  have no_par: "t \<notin> set (parents_of st' u)" for u
  proof (cases "u < Suc t")
    case True
    then have "u < length (heap st2)" by (simp add: len2 len1)
    from rd(4) [OF this] tS True show ?thesis
      by (simp add: parents_of_def lookup_def len3)
  next
    case False
    then show ?thesis by (simp add: parents_of_def lookup_def len3)
  qed
  have no_ch: "t \<notin> set (children_of st' u)" for u
  proof (cases "u < Suc t")
    case False
    then show ?thesis by (simp add: children_of_def lookup_def len3)
  next
    case True
    then have u2: "u < length (heap st2)" by (simp add: len2 len1)
    show ?thesis
    proof (cases "u = x")
      case True
      have xs: "\<not> stale (heap st ! x)"
      proof
        assume "stale (heap st ! x)"
        from stale_is_transpose [OF w(3) xv this] x not_transposed [OF w(3) x nt]
        show False by (simp add: grad_fn_of_def tx)
      qed
      from unregistered_is_stale [OF w(5) xv] xs have "x \<in> set (registry st)" by blast
      moreover have "\<not> stale_of st2 x"
        using xs xv stale2_old [of x] by (simp add: stale_of_def lookup_def len2 len1 t)
      ultimately have "x \<in> set (registry st')" by (simp add: rd(2) reg2)
      from rd(6) [OF u2 [unfolded True] this] tS xv show ?thesis
        by (simp add: True children_of_def lookup_def len3 t)
    next
      case False
      have "t \<notin> set (children (heap st1 ! u))"
      proof (cases "u < t")
        case True
        then have uv: "u < length (heap st)" by (simp add: t)
        from refs_validD(2) [OF w(1) uv, of t] have "t \<notin> set (children (heap st ! u))"
          by (auto simp: t)
        with False uv show ?thesis
          by (simp add: st1_eq heap_create_node_old add_children_def)
      next
        case False
        with \<open>u < Suc t\<close> have "u = t" by simp
        then show ?thesis by (simp add: t_node new_node_def)
      qed
      with rd(5) [OF u2] ch2 [OF True] True show ?thesis
        by (auto simp: children_of_def lookup_def len3)
    qed
  qed
  from T1 T2 len2 stale2 ok no_reg no_par no_ch show ?thesis
    by (simp add: st3_eq)
qed

text \<open>
  For the parameter \<open>a\<close>: \<^verbatim>\<open>a.T()\<close> is the node 1, \<^verbatim>\<open>a.T().T()\<close> is \<open>a\<close>, and after the
  reclaimer the node 1 is neither registered nor a child of \<open>a\<close>.
\<close>

theorem double_transpose_returns_original_witness:
  "well_formed matrix_leaf
   \<and> fst (Tensor_T 0 matrix_leaf) = Inr 1
   \<and> fst (Tensor_T 1 (snd (Tensor_T 0 matrix_leaf))) = Inr 0
   \<and> stale_of (snd (Tensor_T 1 (snd (Tensor_T 0 matrix_leaf)))) 1
   \<and> fst (clear_stale_tensors (snd (Tensor_T 1 (snd (Tensor_T 0 matrix_leaf))))) = None
   \<and> 1 \<notin> set (registry (snd (clear_stale_tensors (snd (Tensor_T 1 (snd (Tensor_T 0 matrix_leaf)))))))
   \<and> 1 \<notin> set (children_of (snd (clear_stale_tensors (snd (Tensor_T 1 (snd (Tensor_T 0 matrix_leaf)))))) 0)"
proof -
  have l: "lookup matrix_leaf 0 = Some (heap matrix_leaf ! 0)"
    by (simp add: lookup_def matrix_leaf_eq)
  have g: "\<not> (grad_fn (heap matrix_leaf ! 0) = Some transpose_backward
              \<and> length (parents (heap matrix_leaf ! 0)) = 1)"
    by (simp add: matrix_leaf_eq)
  have n: "length (heap matrix_leaf) = 1" by (simp add: matrix_leaf_eq)
  from double_transpose_returns_original [OF well_formed_matrix_leaf l g refl refl refl refl]
  show ?thesis
    using well_formed_matrix_leaf by (simp add: n)
qed

text \<open>
  The claim speaks of every tensor. For \<^verbatim>\<open>x = a.T()\<close>, the node 1, \<^verbatim>\<open>x.T()\<close> is \<open>a\<close> and
  \<^verbatim>\<open>x.T().T()\<close> is \<^verbatim>\<open>a.T()\<close> again: a new node 2, not \<open>x\<close>; and the intermediate node \<open>a\<close> is
  not stale.
\<close>

theorem double_transpose_of_transposed_counterexample:
  "fst (Tensor_T 0 matrix_leaf) = Inr 1
   \<and> fst (Tensor_T 1 transposed_leaf) = Inr 0
   \<and> fst (Tensor_T 0 (snd (Tensor_T 1 transposed_leaf))) = Inr 2
   \<and> (2 :: nat) \<noteq> 1
   \<and> \<not> stale_of (snd (Tensor_T 0 (snd (Tensor_T 1 transposed_leaf)))) 0"
  by code_simp

end
